theory Spec2Isabelle
  imports Main "HOL-Library.Word" "HOL-Library.Finite_Map"
begin

unbundle bit_operations_syntax

section \<open>Keys, signatures and digests\<close>

type_synonym byte = "8 word"
type_synonym uint64 = "64 word"

text \<open>
  \<open>type peerPort uint64\<close> (network/peers.go).
\<close>

type_synonym peerPort = uint64

text \<open>
  Modelled from the spec: \<open>publicKeySize\<close> and \<open>signatureSize\<close> are declared in a file
  that is not part of the sources. The spec calls a key a "fixed-size opaque byte string";
  the sizes are those of ed25519. No theorem below depends on the two numbers.
\<close>

definition publicKeySize :: nat where
  "publicKeySize = 32"

definition signatureSize :: nat where
  "signatureSize = 64"

text \<open>
  Modelled from the spec: \<open>MerkleRes: { req: MerkleReq, digest: [32]u8 }\<close>.
\<close>

definition digestSize :: nat where
  "digestSize = 32"

text \<open>
  Go's \<open>[publicKeySize]byte\<close>: the array type fixes the length, so the model's type does.
\<close>

typedef publicKey = "{bs :: byte list. length bs = publicKeySize}"
  by (rule exI [of _ "replicate publicKeySize 0"]) simp

typedef signature = "{bs :: byte list. length bs = signatureSize}"
  by (rule exI [of _ "replicate signatureSize 0"]) simp

typedef Digest = "{bs :: byte list. length bs = digestSize}"
  by (rule exI [of _ "replicate digestSize 0"]) simp

text \<open>The zero value of a Go array: all bytes 0.\<close>

definition zeroKey :: publicKey where
  "zeroKey = Abs_publicKey (replicate publicKeySize 0)"

definition zeroSig :: signature where
  "zeroSig = Abs_signature (replicate signatureSize 0)"

definition zeroDigest :: Digest where
  "zeroDigest = Abs_Digest (replicate digestSize 0)"

text \<open>
  \<open>treeLess\<close> (utility functions): the loop \<open>for idx := range key1\<close> over two arrays of
  the same type, here over the two byte lists in step.
\<close>

fun treeLess_bytes :: "byte list \<Rightarrow> byte list \<Rightarrow> bool" where
  "treeLess_bytes (a # as) (b # bs) =
     (if a < b then True else if a > b then False else treeLess_bytes as bs)"
| "treeLess_bytes _ _ = False"

definition treeLess :: "publicKey \<Rightarrow> publicKey \<Rightarrow> bool" where
  "treeLess key1 key2 = treeLess_bytes (Rep_publicKey key1) (Rep_publicKey key2)"

text \<open>
  Modelled from the spec: \<open>publicKey.less\<close> is declared beside the key type, outside the
  sources. The spec: "PublicKey: fixed-size opaque byte string, totally ordered
  lexicographically. Less means lexicographically smaller." This is what \<open>treeLess\<close>
  computes.
\<close>

definition publicKey_less :: "publicKey \<Rightarrow> publicKey \<Rightarrow> bool" where
  "publicKey_less k1 k2 = treeLess k1 k2"

text \<open>A key whose bytes are all 0 but the last: concrete keys for the examples.\<close>

definition keyOfByte :: "byte \<Rightarrow> publicKey" where
  "keyOfByte b = Abs_publicKey (replicate (publicKeySize - 1) 0 @ [b])"

section \<open>Wire structures of the router\<close>

record routerSigReq =
  seq :: uint64
  nonce :: uint64

text \<open>
  \<open>routerSigRes\<close> embeds \<open>routerSigReq\<close>; \<open>routerAnnounce\<close> and \<open>routerInfo\<close> embed
  \<open>routerSigRes\<close>. The embedded struct is a field of the record, and the promoted fields
  (\<open>ann.seq\<close>, \<open>info.port\<close>) are read through it.
\<close>

record routerSigRes =
  sigReq :: routerSigReq
  port :: peerPort
  psig :: signature

record routerAnnounce =
  ann_key :: publicKey
  ann_parent :: publicKey
  ann_sigRes :: routerSigRes
  ann_sig :: signature

record routerInfo =
  info_parent :: publicKey
  info_sigRes :: routerSigRes
  info_sig :: signature
  info_expired :: bool

abbreviation ann_seq :: "routerAnnounce \<Rightarrow> uint64" where
  "ann_seq a \<equiv> seq (sigReq (ann_sigRes a))"

abbreviation ann_nonce :: "routerAnnounce \<Rightarrow> uint64" where
  "ann_nonce a \<equiv> nonce (sigReq (ann_sigRes a))"

abbreviation ann_port :: "routerAnnounce \<Rightarrow> peerPort" where
  "ann_port a \<equiv> port (ann_sigRes a)"

abbreviation info_seq :: "routerInfo \<Rightarrow> uint64" where
  "info_seq i \<equiv> seq (sigReq (info_sigRes i))"

abbreviation info_nonce :: "routerInfo \<Rightarrow> uint64" where
  "info_nonce i \<equiv> nonce (sigReq (info_sigRes i))"

abbreviation info_port :: "routerInfo \<Rightarrow> peerPort" where
  "info_port i \<equiv> port (info_sigRes i)"

definition routerInfo_getAnnounce :: "routerInfo \<Rightarrow> publicKey \<Rightarrow> routerAnnounce" where
  "routerInfo_getAnnounce info k =
     \<lparr>ann_key = k, ann_parent = info_parent info, ann_sigRes = info_sigRes info,
      ann_sig = info_sig info\<rparr>"

record routerMerkleReq =
  prefixLen :: uint64
  prefix :: publicKey

record routerMerkleRes =
  merkleReq :: routerMerkleReq
  digest :: Digest

text \<open>
  Failures as values: a Go panic, \<open>types.ErrDecode\<close>, and the error \<open>addPeer\<close> returns
  on a closed connection.
\<close>

datatype error = Panic | ErrDecode | ErrClosed

section \<open>Wire encoding\<close>

text \<open>
  Modelled from the spec: the helpers \<open>wireAppendUint\<close>, \<open>wireSizeUint\<close>, \<open>wireChopUint\<close>
  and \<open>wireChopSlice\<close> are called by the codecs below and declared in a file that is not
  part of the sources. The spec: "integers are varint unless stated; fixed-size keys and
  signatures are raw bytes". Varint is the unsigned varint of Go's encoding/binary: seven
  bits a byte, low bits first, the high bit of a byte set when more bytes follow; at most
  ten bytes, the tenth at most 1.
\<close>

function putUvarint :: "uint64 \<Rightarrow> byte list" where
  "putUvarint x =
     (if 0x80 \<le> x then (ucast x OR 0x80) # putUvarint (drop_bit 7 x) else [ucast x])"
  by pat_completeness auto

lemma putUvarint_measure: "(0x80 :: uint64) \<le> x \<Longrightarrow> unat (drop_bit 7 x) < unat x"
proof -
  assume a: "(0x80 :: uint64) \<le> x"
  then have "128 \<le> unat x"
    by (simp add: word_le_nat_alt)
  then have "unat x div 128 < unat x"
    by simp
  then show ?thesis
    by (simp add: drop_bit_eq_div unat_div)
qed

termination putUvarint
  by (relation "measure unat") (simp_all add: putUvarint_measure)

declare putUvarint.simps [simp del]

fun uvarint_loop :: "byte list \<Rightarrow> nat \<Rightarrow> uint64 \<Rightarrow> nat \<Rightarrow> uint64 \<times> int" where
  "uvarint_loop [] i x s = (0, 0)"
| "uvarint_loop (b # bs) i x s =
     (if i = 10 then (0, - (int i + 1))
      else if b < 0x80
      then (if i = 9 \<and> 1 < b then (0, - (int i + 1))
            else (x OR push_bit s (ucast b), int i + 1))
      else uvarint_loop bs (Suc i) (x OR push_bit s (ucast (b AND 0x7f))) (s + 7))"

definition uvarint :: "byte list \<Rightarrow> uint64 \<times> int" where
  "uvarint buf = uvarint_loop buf 0 0 0"

definition wireAppendUint :: "byte list \<Rightarrow> uint64 \<Rightarrow> byte list" where
  "wireAppendUint out u = out @ putUvarint u"

definition wireSizeUint :: "uint64 \<Rightarrow> nat" where
  "wireSizeUint u = length (putUvarint u)"

definition wireChopUint :: "byte list \<Rightarrow> (uint64 \<times> byte list) option" where
  "wireChopUint data =
     (case uvarint data of (u, n) \<Rightarrow> if n \<le> 0 then None else Some (u, drop (nat n) data))"

definition wireChopSlice :: "nat \<Rightarrow> byte list \<Rightarrow> (byte list \<times> byte list) option" where
  "wireChopSlice n data =
     (if length data < n then None else Some (take n data, drop n data))"

text \<open>
  The codecs of the router's messages. \<open>encode\<close> appends to \<open>out\<close> and panics when the
  number of bytes appended differs from \<open>size()\<close>; \<open>chop\<close> reads a value off the front
  of the data and returns the rest; \<open>decode\<close> is \<open>chop\<close> that refuses leftover bytes.
\<close>

definition routerSigReq_size :: "routerSigReq \<Rightarrow> nat" where
  "routerSigReq_size req = wireSizeUint (seq req) + wireSizeUint (nonce req)"

definition routerSigReq_encode :: "routerSigReq \<Rightarrow> byte list \<Rightarrow> error + byte list" where
  "routerSigReq_encode req out =
     (let out1 = wireAppendUint out (seq req);
          out2 = wireAppendUint out1 (nonce req)
      in if int (length out2) - int (length out) \<noteq> int (routerSigReq_size req)
         then Inl Panic else Inr out2)"

definition routerSigReq_chop :: "byte list \<Rightarrow> error + routerSigReq \<times> byte list" where
  "routerSigReq_chop data =
     (case wireChopUint data of
        None \<Rightarrow> Inl ErrDecode
      | Some (s, d1) \<Rightarrow>
          (case wireChopUint d1 of
             None \<Rightarrow> Inl ErrDecode
           | Some (n, d2) \<Rightarrow> Inr (\<lparr>seq = s, nonce = n\<rparr>, d2)))"

definition routerSigReq_decode :: "byte list \<Rightarrow> error + routerSigReq" where
  "routerSigReq_decode data =
     (case routerSigReq_chop data of
        Inl e \<Rightarrow> Inl e
      | Inr (tmp, rest) \<Rightarrow> if length rest \<noteq> 0 then Inl ErrDecode else Inr tmp)"

definition routerSigReq_bytesForSig ::
  "routerSigReq \<Rightarrow> publicKey \<Rightarrow> publicKey \<Rightarrow> error + byte list" where
  "routerSigReq_bytesForSig req node parent =
     routerSigReq_encode req (Rep_publicKey node @ Rep_publicKey parent)"

definition routerSigRes_size :: "routerSigRes \<Rightarrow> nat" where
  "routerSigRes_size res =
     routerSigReq_size (sigReq res) + wireSizeUint (port res) + length (Rep_signature (psig res))"

definition routerSigRes_encode :: "routerSigRes \<Rightarrow> byte list \<Rightarrow> error + byte list" where
  "routerSigRes_encode res out =
     (case routerSigReq_encode (sigReq res) out of
        Inl e \<Rightarrow> Inl e
      | Inr out1 \<Rightarrow>
          let out2 = wireAppendUint out1 (port res);
              out3 = out2 @ Rep_signature (psig res)
          in if int (length out3) - int (length out) \<noteq> int (routerSigRes_size res)
             then Inl Panic else Inr out3)"

definition routerSigRes_chop :: "byte list \<Rightarrow> error + routerSigRes \<times> byte list" where
  "routerSigRes_chop data =
     (case routerSigReq_chop data of
        Inl e \<Rightarrow> Inl e
      | Inr (req, d1) \<Rightarrow>
          (case wireChopUint d1 of
             None \<Rightarrow> Inl ErrDecode
           | Some (pt, d2) \<Rightarrow>
               (case wireChopSlice signatureSize d2 of
                  None \<Rightarrow> Inl ErrDecode
                | Some (sg, d3) \<Rightarrow>
                    Inr (\<lparr>sigReq = req, port = pt, psig = Abs_signature sg\<rparr>, d3))))"

definition routerSigRes_decode :: "byte list \<Rightarrow> error + routerSigRes" where
  "routerSigRes_decode data =
     (case routerSigRes_chop data of
        Inl e \<Rightarrow> Inl e
      | Inr (tmp, rest) \<Rightarrow> if length rest \<noteq> 0 then Inl ErrDecode else Inr tmp)"

definition routerSigRes_bytesForSig ::
  "routerSigRes \<Rightarrow> publicKey \<Rightarrow> publicKey \<Rightarrow> error + byte list" where
  "routerSigRes_bytesForSig res node parent =
     (case routerSigReq_bytesForSig (sigReq res) node parent of
        Inl e \<Rightarrow> Inl e
      | Inr bs \<Rightarrow> Inr (wireAppendUint bs (port res)))"

definition routerAnnounce_size :: "routerAnnounce \<Rightarrow> nat" where
  "routerAnnounce_size ann =
     length (Rep_publicKey (ann_key ann)) + length (Rep_publicKey (ann_parent ann)) +
     routerSigRes_size (ann_sigRes ann) + length (Rep_signature (ann_sig ann))"

definition routerAnnounce_encode :: "routerAnnounce \<Rightarrow> byte list \<Rightarrow> error + byte list" where
  "routerAnnounce_encode ann out =
     (let out1 = out @ Rep_publicKey (ann_key ann);
          out2 = out1 @ Rep_publicKey (ann_parent ann)
      in case routerSigRes_encode (ann_sigRes ann) out2 of
           Inl e \<Rightarrow> Inl e
         | Inr out3 \<Rightarrow>
             let out4 = out3 @ Rep_signature (ann_sig ann)
             in if int (length out4) - int (length out) \<noteq> int (routerAnnounce_size ann)
                then Inl Panic else Inr out4)"

definition routerAnnounce_decode :: "byte list \<Rightarrow> error + routerAnnounce" where
  "routerAnnounce_decode data =
     (case wireChopSlice publicKeySize data of
        None \<Rightarrow> Inl ErrDecode
      | Some (k, d1) \<Rightarrow>
          (case wireChopSlice publicKeySize d1 of
             None \<Rightarrow> Inl ErrDecode
           | Some (p, d2) \<Rightarrow>
               (case routerSigRes_chop d2 of
                  Inl e \<Rightarrow> Inl e
                | Inr (res, d3) \<Rightarrow>
                    (case wireChopSlice signatureSize d3 of
                       None \<Rightarrow> Inl ErrDecode
                     | Some (sg, d4) \<Rightarrow>
                         if length d4 \<noteq> 0 then Inl ErrDecode
                         else Inr \<lparr>ann_key = Abs_publicKey k, ann_parent = Abs_publicKey p,
                                   ann_sigRes = res, ann_sig = Abs_signature sg\<rparr>))))"

text \<open>
  \<open>routerAnnounce.check\<close>. \<open>verify k bs sig\<close> stands for \<open>k.verify(bs, &sig)\<close>, the
  signature check of the key type, which is not part of the sources.
\<close>

definition routerAnnounce_check ::
  "(publicKey \<Rightarrow> byte list \<Rightarrow> signature \<Rightarrow> bool) \<Rightarrow> routerAnnounce \<Rightarrow> error + bool" where
  "routerAnnounce_check verify ann =
     (if ann_port ann = 0 \<and> ann_key ann \<noteq> ann_parent ann then Inr False
      else
        (case routerSigRes_bytesForSig (ann_sigRes ann) (ann_key ann) (ann_parent ann) of
           Inl e \<Rightarrow> Inl e
         | Inr bs \<Rightarrow>
             Inr (verify (ann_key ann) bs (ann_sig ann) \<and>
                  verify (ann_parent ann) bs (psig (ann_sigRes ann)))))"

text \<open>
  Modelled from the spec: \<open>merkletree.KeyBits\<close>, the bit length \<open>K\<close> of a key
  ("typically 8 times the key size").
\<close>

definition KeyBits :: nat where
  "KeyBits = 8 * publicKeySize"

definition routerMerkleReq_check :: "routerMerkleReq \<Rightarrow> bool" where
  "routerMerkleReq_check req = (prefixLen req \<le> of_nat KeyBits)"

definition routerMerkleReq_size :: "routerMerkleReq \<Rightarrow> nat" where
  "routerMerkleReq_size req = wireSizeUint (prefixLen req) + length (Rep_publicKey (prefix req))"

definition routerMerkleReq_encode :: "routerMerkleReq \<Rightarrow> byte list \<Rightarrow> error + byte list" where
  "routerMerkleReq_encode req out =
     (let out1 = wireAppendUint out (prefixLen req);
          out2 = out1 @ Rep_publicKey (prefix req)
      in if int (length out2) - int (length out) \<noteq> int (routerMerkleReq_size req)
         then Inl Panic else Inr out2)"

definition routerMerkleReq_chop :: "byte list \<Rightarrow> error + routerMerkleReq \<times> byte list" where
  "routerMerkleReq_chop data =
     (case wireChopUint data of
        None \<Rightarrow> Inl ErrDecode
      | Some (n, d1) \<Rightarrow>
          (case wireChopSlice publicKeySize d1 of
             None \<Rightarrow> Inl ErrDecode
           | Some (p, d2) \<Rightarrow> Inr (\<lparr>prefixLen = n, prefix = Abs_publicKey p\<rparr>, d2)))"

definition routerMerkleReq_decode :: "byte list \<Rightarrow> error + routerMerkleReq" where
  "routerMerkleReq_decode data =
     (case routerMerkleReq_chop data of
        Inl e \<Rightarrow> Inl e
      | Inr (tmp, rest) \<Rightarrow> if length rest \<noteq> 0 then Inl ErrDecode else Inr tmp)"

definition routerMerkleRes_size :: "routerMerkleRes \<Rightarrow> nat" where
  "routerMerkleRes_size res =
     routerMerkleReq_size (merkleReq res) + length (Rep_Digest (digest res))"

definition routerMerkleRes_encode :: "routerMerkleRes \<Rightarrow> byte list \<Rightarrow> error + byte list" where
  "routerMerkleRes_encode res out =
     (case routerMerkleReq_encode (merkleReq res) out of
        Inl e \<Rightarrow> Inl e
      | Inr out1 \<Rightarrow>
          let out2 = out1 @ Rep_Digest (digest res)
          in if int (length out2) - int (length out) \<noteq> int (routerMerkleRes_size res)
             then Inl Panic else Inr out2)"

definition routerMerkleRes_chop :: "byte list \<Rightarrow> error + routerMerkleRes \<times> byte list" where
  "routerMerkleRes_chop data =
     (case routerMerkleReq_chop data of
        Inl e \<Rightarrow> Inl e
      | Inr (req, d1) \<Rightarrow>
          (case wireChopSlice digestSize d1 of
             None \<Rightarrow> Inl ErrDecode
           | Some (dg, d2) \<Rightarrow> Inr (\<lparr>merkleReq = req, digest = Abs_Digest dg\<rparr>, d2)))"

definition routerMerkleRes_decode :: "byte list \<Rightarrow> error + routerMerkleRes" where
  "routerMerkleRes_decode data =
     (case routerMerkleRes_chop data of
        Inl e \<Rightarrow> Inl e
      | Inr (tmp, rest) \<Rightarrow> if length rest \<noteq> 0 then Inl ErrDecode else Inr tmp)"

text \<open>
  The canonical encodings as the spec lists them: \<open>SigReq: varint(seq) varint(nonce)\<close>,
  \<open>SigRes: SigReq, varint(port), sig_bytes\<close>, \<open>Announce: key, parent, SigRes, sig_bytes\<close>,
  \<open>MerkleReq: varint(prefix_len), key_bytes(prefix)\<close>, \<open>MerkleRes: MerkleReq, digest_bytes\<close>.
\<close>

definition sigReq_bytes :: "routerSigReq \<Rightarrow> byte list" where
  "sigReq_bytes req = putUvarint (seq req) @ putUvarint (nonce req)"

definition sigRes_bytes :: "routerSigRes \<Rightarrow> byte list" where
  "sigRes_bytes res = sigReq_bytes (sigReq res) @ putUvarint (port res) @ Rep_signature (psig res)"

definition announce_bytes :: "routerAnnounce \<Rightarrow> byte list" where
  "announce_bytes ann =
     Rep_publicKey (ann_key ann) @ Rep_publicKey (ann_parent ann) @ sigRes_bytes (ann_sigRes ann) @
     Rep_signature (ann_sig ann)"

definition merkleReq_bytes :: "routerMerkleReq \<Rightarrow> byte list" where
  "merkleReq_bytes req = putUvarint (prefixLen req) @ Rep_publicKey (prefix req)"

definition merkleRes_bytes :: "routerMerkleRes \<Rightarrow> byte list" where
  "merkleRes_bytes res = merkleReq_bytes (merkleReq res) @ Rep_Digest (digest res)"

section \<open>Timers\<close>

text \<open>
  A \<open>*time.Timer\<close> is a heap object: the router keeps pointers to timers in
  \<open>r.timers\<close>, and each callback compares \<open>r.timers[key]\<close> with its own timer. The model
  keeps the timer objects in a store indexed by address. Go's time package is a library:
  \<open>time.AfterFunc(d, f)\<close> allocates a timer due \<open>d\<close> from now, \<open>Stop\<close> disarms it,
  \<open>Reset(d)\<close> arms it to fire \<open>d\<close> from now. Time is a count of nanoseconds.
  The closures handed to \<open>AfterFunc\<close> are the constructors of \<open>timerFunc\<close>: the two of
  \<open>_update\<close>, each with the \<open>key\<close> it captured, the one of \<open>_fix\<close>, and the empty
  \<open>func() {}\<close> of \<open>init\<close>.
\<close>

datatype timerFunc = RefreshFunc publicKey | ExpireFunc publicKey | FixFunc | EmptyFunc

record timer =
  deadline :: "int option"
  func :: timerFunc

section \<open>Peers and the router state\<close>

text \<open>
  \<open>type peer struct\<close> (network/peers.go): \<open>key\<close>, \<open>port\<close> and \<open>conn\<close>, the connection as
  an opaque handle. \<open>router._lookup\<close> reads two more fields of a peer, \<open>prio\<close> and
  \<open>time\<close>, that the declaration under the sources predates: \<open>prio\<close> is compared as a
  number, \<open>time\<close> with \<open>time.After\<close>.
\<close>

record peer =
  peer_key :: publicKey
  peer_port :: peerPort
  peer_conn :: nat
  prio :: nat
  time :: int

text \<open>Messages handed to \<open>p.sendAnnounce\<close>, \<open>p.sendMerkleRes\<close> and the like.\<close>

datatype wireMsg =
    MsgAnnounce routerAnnounce
  | MsgMerkleReq routerMerkleReq
  | MsgMerkleRes routerMerkleRes
  | MsgSigReq routerSigReq
  | MsgSigRes routerSigRes

text \<open>A Merkle node: \<open>node.Digest\<close>, \<open>node.Left\<close>, \<open>node.Right\<close> (nil or a node).\<close>

datatype Node = Node (Digest: Digest) (Left: "Node option") (Right: "Node option")

record Tree =
  Root :: Node

text \<open>
  \<open>r.core\<close>: the node's own key \<open>r.core.crypto.publicKey\<close> and the three configuration
  values the router reads. \<open>routerMaxInfos\<close> is the value of
  \<open>int(r.core.config.routerMaxInfos)\<close>; durations are nanoseconds.
\<close>

record core =
  crypto_publicKey :: publicKey
  routerRefresh :: int
  routerTimeout :: int
  routerMaxInfos :: int

text \<open>
  \<open>type router struct\<close>. Go maps are finite maps. \<open>peers\<close> is an association list whose
  order is the order in which \<open>range\<close> visits the map and each set of links. The fields
  \<open>theap\<close>, \<open>nextTimer\<close>, \<open>now\<close> and \<open>outbox\<close> are the world the router acts on: the timer
  objects, the next free timer address, the clock, and the messages sent so far, each with
  the port of the peer it was sent to.
\<close>

record router =
  core :: core
  peers :: "(publicKey \<times> peer list) list"
  merks :: "(publicKey, Tree) fmap"
  infos :: "(publicKey, routerInfo) fmap"
  timers :: "(publicKey, nat) fmap"
  cache :: "(publicKey, peerPort list) fmap"
  requests :: "(publicKey, routerSigReq) fmap"
  responses :: "(publicKey, routerSigRes) fmap"
  resSeqs :: "(publicKey, uint64) fmap"
  resSeqCtr :: uint64
  refresh :: bool
  doRoot1 :: bool
  doRoot2 :: bool
  fixTimer :: nat
  theap :: "nat \<Rightarrow> timer option"
  nextTimer :: nat
  now :: int
  outbox :: "(peerPort \<times> wireMsg) list"

text \<open>
  \<open>p.sendSigReq\<close>, \<open>p.sendMerkleRes\<close>, \<open>p.sendAnnounce\<close>: the message is queued for the peer.
\<close>

definition peer_send :: "peer \<Rightarrow> wireMsg \<Rightarrow> router \<Rightarrow> router" where
  "peer_send p m r = r\<lparr>outbox := outbox r @ [(peer_port p, m)]\<rparr>"

section \<open>The announcement store\<close>

definition router_resetCache :: "router \<Rightarrow> router" where
  "router_resetCache r = r\<lparr>cache := fmempty\<rparr>"

definition time_AfterFunc :: "int \<Rightarrow> timerFunc \<Rightarrow> router \<Rightarrow> nat \<times> router" where
  "time_AfterFunc d f r =
     (nextTimer r,
      r\<lparr>theap := (theap r)(nextTimer r \<mapsto> \<lparr>deadline = Some (now r + d), func = f\<rparr>),
        nextTimer := Suc (nextTimer r)\<rparr>)"

definition timer_Stop :: "nat \<Rightarrow> router \<Rightarrow> router" where
  "timer_Stop t r =
     (case theap r t of
        None \<Rightarrow> r
      | Some tm \<Rightarrow> r\<lparr>theap := (theap r)(t \<mapsto> tm\<lparr>deadline := None\<rparr>)\<rparr>)"

definition timer_Reset :: "nat \<Rightarrow> int \<Rightarrow> router \<Rightarrow> router" where
  "timer_Reset t d r =
     (case theap r t of
        None \<Rightarrow> r
      | Some tm \<Rightarrow> r\<lparr>theap := (theap r)(t \<mapsto> tm\<lparr>deadline := Some (now r + d)\<rparr>)\<rparr>)"

text \<open>
  The \<open>switch\<close> at the head of \<open>_update\<close>, for a key that has a stored info: \<open>True\<close>
  where the source falls through to the store, \<open>False\<close> where it returns false.
\<close>

definition update_accepts :: "routerInfo \<Rightarrow> routerAnnounce \<Rightarrow> bool" where
  "update_accepts info ann =
     (if info_seq info > ann_seq ann then False
      else if info_seq info < ann_seq ann then True
      else if publicKey_less (info_parent info) (ann_parent ann) then False
      else if publicKey_less (ann_parent ann) (info_parent info) then True
      else if ann_nonce ann < info_nonce info then True
      else False)"

text \<open>
  \<open>router._update\<close>. \<open>rnd\<close> is the value \<open>mrand.Intn(1024)\<close> returns, read only for the
  node's own key.
\<close>

definition router_update :: "int \<Rightarrow> router \<Rightarrow> routerAnnounce \<Rightarrow> bool \<times> router" where
  "router_update rnd r ann =
     (if (case fmlookup (infos r) (ann_key ann) of
            Some info \<Rightarrow> \<not> update_accepts info ann
          | None \<Rightarrow> False)
      then (False, r)
      else
        let r1 = router_resetCache r;
            info = \<lparr>info_parent = ann_parent ann, info_sigRes = ann_sigRes ann,
                    info_sig = ann_sig ann, info_expired = False\<rparr>;
            k = ann_key ann;
            (t, r2) =
              (if k = crypto_publicKey (core r1)
               then time_AfterFunc (routerRefresh (core r1) + 1000000 * rnd) (RefreshFunc k) r1
               else time_AfterFunc (routerTimeout (core r1)) (ExpireFunc k) r1);
            r3 = (case fmlookup (timers r2) k of
                    Some oldTimer \<Rightarrow> timer_Stop oldTimer r2
                  | None \<Rightarrow> r2)
        in (True, r3\<lparr>infos := fmupd k info (infos r3), timers := fmupd k t (timers r3)\<rparr>))"

section \<open>The parent selection\<close>

text \<open>
  What \<open>_fix\<close> and the functions it calls take from outside the router: \<open>privateKey.sign\<close>
  and \<open>publicKey.verify\<close> of the node's key pair, the values that \<open>crand.Read\<close> yields one
  after the other and the value of \<open>mrand.Intn(1024)\<close>, \<open>Tree.Add\<close> and \<open>GetDigest\<close> of
  the \<open>merkletree\<close> package, the constant \<open>bloomMulticastEnabled\<close>, and the orders in which
  \<open>range\<close> yields the keys of \<open>r.infos\<close>, \<open>r.responses\<close> and \<open>r.merks\<close>. The calls
  \<open>r.blooms._fixOnTree()\<close> and \<open>r.blooms._sendAllBlooms(true)\<close> that \<open>_fix\<close> defers act
  on \<open>r.blooms\<close>, a field of its own that no function modelled here reads; they are left
  out.
\<close>

record env =
  env_sign :: "byte list \<Rightarrow> signature"
  env_verify :: "publicKey \<Rightarrow> byte list \<Rightarrow> signature \<Rightarrow> bool"
  env_crand :: "nat \<Rightarrow> uint64"
  env_mrand :: int
  env_Add :: "Tree \<Rightarrow> publicKey \<Rightarrow> Digest \<Rightarrow> Tree"
  env_GetDigest :: "byte list \<Rightarrow> Digest"
  bloomMulticastEnabled :: bool
  range_infos :: "publicKey list"
  range_responses :: "publicKey list"
  range_merks :: "publicKey list"

text \<open>
  The loop of \<open>router._getRootAndDists\<close>, on \<open>dists\<close>, \<open>next\<close>, \<open>root\<close> and \<open>dist\<close>.
\<close>

function getRootAndDists_loop ::
  "(publicKey, routerInfo) fmap \<Rightarrow> (publicKey, uint64) fmap \<Rightarrow> publicKey \<Rightarrow> publicKey \<Rightarrow> uint64
     \<Rightarrow> publicKey \<times> (publicKey, uint64) fmap" where
  "getRootAndDists_loop m dists next root dist =
     (if fmlookup dists next \<noteq> None then (root, dists)
      else
        (case fmlookup m next of
           None \<Rightarrow> (root, dists)
         | Some info \<Rightarrow>
             if info_expired info then (root, dists)
             else getRootAndDists_loop m (fmupd next dist dists) (info_parent info) next
                    (dist + 1)))"
  by pat_completeness auto

lemma getRootAndDists_measure:
  assumes "fmlookup m next = Some info" and "fmlookup dists next = None"
  shows "card (fmdom' m - insert next (fmdom' dists)) < card (fmdom' m - fmdom' dists)"
proof -
  have "finite (fmdom' m)"
    by (simp add: fmdom'_alt_def)
  then have fin: "finite (fmdom' m - fmdom' dists)"
    by (rule finite_Diff)
  have mem: "next \<in> fmdom' m - fmdom' dists"
    using assms by (simp add: fmdom'I fmdom'_notI)
  have eq: "fmdom' m - insert next (fmdom' dists) = (fmdom' m - fmdom' dists) - {next}"
    by auto
  show ?thesis
    unfolding eq by (rule card_Diff1_less [OF fin mem])
qed

termination getRootAndDists_loop
  by (relation "measure (\<lambda>(m, dists, next, root, dist). card (fmdom' m - fmdom' dists))")
     (auto intro: getRootAndDists_measure)

declare getRootAndDists_loop.simps [simp del]

definition router_getRootAndDists ::
  "router \<Rightarrow> publicKey \<Rightarrow> publicKey \<times> (publicKey, uint64) fmap" where
  "router_getRootAndDists r dest = getRootAndDists_loop (infos r) fmempty dest zeroKey 0"

text \<open>
  \<open>router._newReq\<close>, with the \<open>i\<close>-th value of \<open>crand.Read\<close> as the nonce.
  \<open>r.infos[key]\<close> of a key that is not stored is the zero info.
\<close>

definition router_newReq :: "env \<Rightarrow> nat \<Rightarrow> router \<Rightarrow> routerSigReq" where
  "router_newReq e i r =
     \<lparr>seq = (case fmlookup (infos r) (crypto_publicKey (core r)) of
               None \<Rightarrow> 0
             | Some info \<Rightarrow> info_seq info) + 1,
      nonce = env_crand e i\<rparr>"

text \<open>\<open>router._becomeRoot\<close> and \<open>router._useResponse\<close>: the result of \<open>_update\<close>.\<close>

definition router_becomeRoot :: "env \<Rightarrow> router \<Rightarrow> error + bool \<times> router" where
  "router_becomeRoot e r =
     (let self = crypto_publicKey (core r);
          res = \<lparr>sigReq = router_newReq e 0 r, port = 0, psig = zeroSig\<rparr>
      in case routerSigRes_bytesForSig res self self of
           Inl err \<Rightarrow> Inl err
         | Inr bs \<Rightarrow>
             let res1 = res\<lparr>psig := env_sign e bs\<rparr>;
                 ann = \<lparr>ann_key = self, ann_parent = self, ann_sigRes = res1,
                        ann_sig = psig res1\<rparr>
             in (case routerAnnounce_check (env_verify e) ann of
                   Inl err \<Rightarrow> Inl err
                 | Inr ok \<Rightarrow>
                     if \<not> ok then Inl Panic else Inr (router_update (env_mrand e) r ann)))"

definition router_useResponse ::
  "env \<Rightarrow> router \<Rightarrow> publicKey \<Rightarrow> routerSigRes \<Rightarrow> error + bool \<times> router" where
  "router_useResponse e r peerKey res =
     (case routerSigRes_bytesForSig res (crypto_publicKey (core r)) peerKey of
        Inl err \<Rightarrow> Inl err
      | Inr bs \<Rightarrow>
          let info = \<lparr>info_parent = peerKey, info_sigRes = res, info_sig = env_sign e bs,
                      info_expired = False\<rparr>;
              ann = routerInfo_getAnnounce info (crypto_publicKey (core r))
          in Inr (router_update (env_mrand e) r ann))"

definition router_clearReqs :: "router \<Rightarrow> router" where
  "router_clearReqs r =
     r\<lparr>requests := fmempty, responses := fmempty, resSeqs := fmempty, resSeqCtr := 0\<rparr>"

text \<open>
  The loop of \<open>router._sendReqs\<close> over \<open>r.peers\<close>; \<open>i\<close> counts the values read from
  \<open>crand\<close> so far.
\<close>

fun sendReqs_loop :: "env \<Rightarrow> nat \<Rightarrow> (publicKey \<times> peer list) list \<Rightarrow> router \<Rightarrow> router" where
  "sendReqs_loop e i [] r = r"
| "sendReqs_loop e i ((pk, ps) # rest) r =
     (let req = router_newReq e i r;
          r1 = r\<lparr>requests := fmupd pk req (requests r)\<rparr>
      in sendReqs_loop e (Suc i) rest (fold (\<lambda>p. peer_send p (MsgSigReq req)) ps r1))"

definition router_sendReqs :: "env \<Rightarrow> nat \<Rightarrow> router \<Rightarrow> router" where
  "router_sendReqs e i r = sendReqs_loop e i (peers r) (router_clearReqs r)"

text \<open>
  \<open>router._fixMerks\<close>: the tree over all stored infos, then the loop over \<open>r.merks\<close>.
\<close>

definition fixMerks_tree :: "env \<Rightarrow> router \<Rightarrow> publicKey \<Rightarrow> error + Tree \<Rightarrow> error + Tree" where
  "fixMerks_tree e r k acc =
     (case acc of
        Inl err \<Rightarrow> Inl err
      | Inr merk \<Rightarrow>
          (case fmlookup (infos r) k of
             None \<Rightarrow> Inr merk
           | Some info \<Rightarrow>
               (case routerAnnounce_encode (routerInfo_getAnnounce info k) [] of
                  Inl err \<Rightarrow> Inl Panic
                | Inr bs \<Rightarrow> Inr (env_Add e merk k (env_GetDigest e bs)))))"

fun fixMerks_loop :: "env \<Rightarrow> Tree \<Rightarrow> publicKey list \<Rightarrow> router \<Rightarrow> error + router" where
  "fixMerks_loop e merk [] r = Inr r"
| "fixMerks_loop e merk (k # ks) r =
     (case fmlookup (merks r) k of
        None \<Rightarrow> fixMerks_loop e merk ks r
      | Some orig \<Rightarrow>
          if bloomMulticastEnabled e then Inl Panic
          else if Digest (Root merk) = Digest (Root orig) then fixMerks_loop e merk ks r
          else
            let r1 = r\<lparr>merks := fmupd k merk (merks r)\<rparr>;
                res = \<lparr>merkleReq = \<lparr>prefixLen = 0, prefix = zeroKey\<rparr>,
                       digest = Digest (Root merk)\<rparr>;
                req = \<lparr>prefixLen = 0, prefix = zeroKey\<rparr>;
                links = (case map_of (peers r1) k of None \<Rightarrow> [] | Some ps \<Rightarrow> ps)
            in fixMerks_loop e merk ks
                 (fold (\<lambda>p s. peer_send p (MsgMerkleReq req) (peer_send p (MsgMerkleRes res) s))
                    links r1))"

definition router_fixMerks :: "env \<Rightarrow> router \<Rightarrow> error + router" where
  "router_fixMerks e r =
     (case (if \<not> bloomMulticastEnabled e
            then fold (fixMerks_tree e r) (range_infos e) (Inr \<lparr>Root = Node zeroDigest None None\<rparr>)
            else Inr \<lparr>Root = Node zeroDigest None None\<rparr>) of
        Inl err \<Rightarrow> Inl err
      | Inr merk \<Rightarrow> fixMerks_loop e merk (range_merks e) r)"

text \<open>
  The loop \<open>for pk := range r.responses\<close> of \<open>_fix\<close>, one key at a time, on the pair
  \<open>(bestRoot, bestParent)\<close>. \<open>r.resSeqs[k]\<close> of a key that is not stored is 0.
\<close>

definition router_resSeq :: "router \<Rightarrow> publicKey \<Rightarrow> uint64" where
  "router_resSeq r k = (case fmlookup (resSeqs r) k of None \<Rightarrow> 0 | Some n \<Rightarrow> n)"

definition self_parent :: "router \<Rightarrow> publicKey" where
  "self_parent r =
     (case fmlookup (infos r) (crypto_publicKey (core r)) of
        None \<Rightarrow> zeroKey
      | Some info \<Rightarrow> info_parent info)"

definition fix_step :: "router \<Rightarrow> publicKey \<Rightarrow> publicKey \<times> publicKey \<Rightarrow> publicKey \<times> publicKey" where
  "fix_step r pk acc =
     (if fmlookup (infos r) pk = None then acc
      else
        let (pRoot, pDists) = router_getRootAndDists r pk
        in if fmlookup pDists (crypto_publicKey (core r)) \<noteq> None then acc
           else
             let (bestRoot, bestParent) =
                   (if publicKey_less pRoot (fst acc) then (pRoot, pk) else acc)
             in if (refresh r \<or> bestParent \<noteq> self_parent r) \<and> pRoot = bestRoot \<and>
                   router_resSeq r pk < router_resSeq r bestParent
                then (pRoot, pk)
                else (bestRoot, bestParent))"

text \<open>
  \<open>router._fix\<close>, in three parts: the choice of \<open>bestRoot\<close> and \<open>bestParent\<close>, the
  \<open>switch\<close> under \<open>if r.refresh || r.doRoot1 || r.doRoot2 || self.parent != bestParent\<close>,
  and the deferred \<open>_fixMerks\<close>, which runs last. A second is \<open>1000000000\<close>
  nanoseconds.
\<close>

definition fix_best :: "env \<Rightarrow> router \<Rightarrow> publicKey \<times> publicKey" where
  "fix_best e r =
     (let selfKey = crypto_publicKey (core r);
          root = fst (router_getRootAndDists r selfKey);
          start = (if map_of (peers r) (self_parent r) \<noteq> None \<and> publicKey_less root selfKey
                   then (root, self_parent r) else (selfKey, selfKey))
      in fold (fix_step r) (range_responses e) start)"

definition fix_switch :: "env \<Rightarrow> router \<Rightarrow> publicKey \<Rightarrow> publicKey \<Rightarrow> error + router" where
  "fix_switch e r bestRoot bestParent =
     (if refresh r \<or> doRoot1 r \<or> doRoot2 r \<or> self_parent r \<noteq> bestParent
      then
        (case (if bestRoot \<noteq> crypto_publicKey (core r)
               then fmlookup (responses r) bestParent else None) of
           Some res \<Rightarrow>
             (case router_useResponse e r bestParent res of
                Inl err \<Rightarrow> Inl err
              | Inr (ok, r1) \<Rightarrow>
                  if \<not> ok then Inl Panic
                  else
                    let r2 = timer_Stop (fixTimer r1) r1;
                        r3 = r2\<lparr>refresh := False, doRoot1 := False, doRoot2 := False\<rparr>
                    in Inr (router_sendReqs e 0 r3))
         | None \<Rightarrow>
             if doRoot2 r
             then
               (case router_becomeRoot e r of
                  Inl err \<Rightarrow> Inl err
                | Inr (ok, r1) \<Rightarrow>
                    if \<not> ok then Inl Panic
                    else
                      let r2 = r1\<lparr>refresh := False, doRoot1 := False, doRoot2 := False\<rparr>;
                          r3 = timer_Stop (fixTimer r2) r2
                      in Inr (router_sendReqs e 1 r3))
             else if \<not> doRoot1 r
             then
               let (t, r1) = time_AfterFunc 1000000000 FixFunc r
               in Inr (r1\<lparr>fixTimer := t, doRoot1 := True\<rparr>)
             else Inr r)
      else Inr r)"

definition router_fix :: "env \<Rightarrow> router \<Rightarrow> error + router" where
  "router_fix e r =
     (let (bestRoot, bestParent) = fix_best e r
      in case fix_switch e r bestRoot bestParent of
           Inl err \<Rightarrow> Inl err
         | Inr r1 \<Rightarrow> router_fixMerks e r1)"

section \<open>The announcement handler and the timers\<close>

text \<open>
  The loop \<open>for k := range r.infos\<close> of \<open>_handleAnnounce\<close>, one key at a time, on the
  pair \<open>(worst, found)\<close>.
\<close>

definition worst_step :: "publicKey \<Rightarrow> publicKey \<Rightarrow> publicKey \<times> bool \<Rightarrow> publicKey \<times> bool" where
  "worst_step self k acc =
     (if k = self then acc
      else if \<not> snd acc \<or> publicKey_less (fst acc) k then (k, True)
      else acc)"

text \<open>
  \<open>router._handleAnnounce\<close>. \<open>e\<close> is the environment of the run of \<open>_fix\<close>, \<open>rnd\<close> the
  value of \<open>mrand.Intn(1024)\<close> in \<open>_update\<close>, \<open>ks\<close> the order in which \<open>range r.infos\<close>
  yields the keys. \<open>r.timers[worst].Stop()\<close> on a key with no timer calls a method of a
  nil timer, which panics.
\<close>

definition router_handleAnnounce ::
  "env \<Rightarrow> int \<Rightarrow> publicKey list \<Rightarrow> router \<Rightarrow> peer \<Rightarrow> routerAnnounce \<Rightarrow> error + router" where
  "router_handleAnnounce e rnd ks r sender ann =
     (let (doUpdate, worst, found) =
            (if int (card (fmdom' (infos r))) < routerMaxInfos (core r)
             then (True, zeroKey, False)
             else if fmlookup (infos r) (ann_key ann) \<noteq> None
             then (True, zeroKey, False)
             else
               let (worst, found) =
                     fold (worst_step (crypto_publicKey (core r))) ks (zeroKey, False)
               in (publicKey_less (ann_key ann) worst, worst, found))
      in if \<not> doUpdate then Inr r
         else
           (case router_update rnd r ann of
              (True, r1) \<Rightarrow>
                (case (if found
                       then (case fmlookup (timers r1) worst of
                               None \<Rightarrow> Inl Panic
                             | Some t \<Rightarrow>
                                 let r2 = timer_Stop t r1
                                 in Inr (router_resetCache
                                      (r2\<lparr>infos := fmdrop worst (infos r2),
                                          timers := fmdrop worst (timers r2)\<rparr>)))
                       else Inr r1) of
                   Inl err \<Rightarrow> Inl err
                 | Inr r3 \<Rightarrow>
                     router_fix e (if ann_key ann = crypto_publicKey (core r3)
                                   then r3\<lparr>refresh := True\<rparr> else r3))
            | (False, r1) \<Rightarrow> Inr r1))"

text \<open>
  The closure of \<open>_update\<close> for the node's own key, run by the actor when timer \<open>t\<close>
  fires.
\<close>

definition router_refreshFunc :: "env \<Rightarrow> publicKey \<Rightarrow> nat \<Rightarrow> router \<Rightarrow> error + router" where
  "router_refreshFunc e k t r =
     (if fmlookup (timers r) k = Some t then router_fix e (r\<lparr>refresh := True\<rparr>) else Inr r)"

text \<open>The closure of \<open>_update\<close> for any other key.\<close>

definition router_expireFunc :: "env \<Rightarrow> publicKey \<Rightarrow> nat \<Rightarrow> router \<Rightarrow> error + router" where
  "router_expireFunc e k t r =
     (if fmlookup (timers r) k = Some t
      then
        (if (case fmlookup (infos r) k of None \<Rightarrow> True | Some info \<Rightarrow> info_expired info)
         then
           let r1 = timer_Stop t r
           in router_fix e
                (router_resetCache
                   (r1\<lparr>infos := fmdrop k (infos r1), timers := fmdrop k (timers r1)\<rparr>))
         else
           (case fmlookup (infos r) k of
              None \<Rightarrow> Inr r
            | Some info \<Rightarrow>
                router_fix e
                  (timer_Reset t (2 * routerTimeout (core r))
                     (r\<lparr>infos := fmupd k (info\<lparr>info_expired := True\<rparr>) (infos r)\<rparr>))))
      else Inr r)"

text \<open>
  The runtime firing timer \<open>t\<close>: an armed timer fires at its deadline, is disarmed, and
  its function runs. A stopped or fired timer does not fire.
\<close>

definition timer_fire :: "env \<Rightarrow> nat \<Rightarrow> router \<Rightarrow> error + router" where
  "timer_fire e t r =
     (case theap r t of
        None \<Rightarrow> Inr r
      | Some tm \<Rightarrow>
          (case deadline tm of
             None \<Rightarrow> Inr r
           | Some d \<Rightarrow>
               let r1 = r\<lparr>now := max (now r) d,
                          theap := (theap r)(t \<mapsto> tm\<lparr>deadline := None\<rparr>)\<rparr>
               in (case func tm of
                     RefreshFunc k \<Rightarrow> router_refreshFunc e k t r1
                   | ExpireFunc k \<Rightarrow> router_expireFunc e k t r1
                   | FixFunc \<Rightarrow>
                       if doRoot1 r1 then router_fix e (r1\<lparr>doRoot2 := True\<rparr>) else Inr r1
                   | EmptyFunc \<Rightarrow> Inr r1)))"

text \<open>
  A timer of another key: an address in use that is neither \<open>r.fixTimer\<close> nor the timer
  of the node's own key.
\<close>

definition remote_timer :: "router \<Rightarrow> nat \<Rightarrow> bool" where
  "remote_timer r t \<longleftrightarrow>
     t < nextTimer r \<and> t \<noteq> fixTimer r \<and>
     fmlookup (timers r) (crypto_publicKey (core r)) \<noteq> Some t"

text \<open>
  What a run of \<open>_fix\<close> leaves as it is. The only store of \<open>_fix\<close> is \<open>_update\<close> of
  the node's own announcement (in \<open>_becomeRoot\<close> and \<open>_useResponse\<close>), and the only
  timers it touches are that of the node's own key, \<open>r.fixTimer\<close> and new ones: the info
  and the timer of every other key stay, the node's own info is not removed, and no time
  passes. \<open>store_of\<close> is the part of the state that holds the infos and the timers.
\<close>

definition store_of ::
  "router \<Rightarrow> core \<times> int \<times> (publicKey, routerInfo) fmap \<times> (publicKey, nat) fmap \<times>
     (nat \<Rightarrow> timer option) \<times> nat \<times> nat" where
  "store_of r = (core r, now r, infos r, timers r, theap r, nextTimer r, fixTimer r)"

definition fix_rel :: "router \<Rightarrow> router \<Rightarrow> bool" where
  "fix_rel s s' \<longleftrightarrow>
     core s' = core s \<and> now s' = now s \<and>
     (\<forall>k. k \<noteq> crypto_publicKey (core s) \<longrightarrow>
        fmlookup (infos s') k = fmlookup (infos s) k \<and>
        fmlookup (timers s') k = fmlookup (timers s) k) \<and>
     (\<forall>t. remote_timer s t \<longrightarrow> theap s' t = theap s t \<and> remote_timer s' t) \<and>
     (fmlookup (infos s) (crypto_publicKey (core s)) \<noteq> None \<longrightarrow>
        fmlookup (infos s') (crypto_publicKey (core s)) \<noteq> None)"

text \<open>
  Pointers in \<open>r.timers\<close> and \<open>r.fixTimer\<close> were returned by earlier calls of
  \<open>time.AfterFunc\<close>: they lie below the next free address.
\<close>

definition timers_allocated :: "router \<Rightarrow> bool" where
  "timers_allocated r \<longleftrightarrow>
     (\<forall>k t. fmlookup (timers r) k = Some t \<longrightarrow> t < nextTimer r) \<and> fixTimer r < nextTimer r"

section \<open>The forwarder\<close>

text \<open>
  The loop of \<open>router._getRootAndPath\<close>: \<open>visited\<close> is the set of keys seen, \<open>ports\<close>
  the ports appended so far, from the node towards the root; the source reverses them at
  the end.
\<close>

function getRootAndPath_loop ::
  "(publicKey, routerInfo) fmap \<Rightarrow> publicKey \<Rightarrow> publicKey list \<Rightarrow> publicKey \<Rightarrow> peerPort list
     \<Rightarrow> publicKey \<times> peerPort list" where
  "getRootAndPath_loop m dest visited next ports =
     (if next \<in> set visited then (dest, [])
      else
        (case fmlookup m next of
           None \<Rightarrow> (dest, [])
         | Some info \<Rightarrow>
             if info_expired info then (dest, [])
             else if next = info_parent info then (next, rev ports)
             else getRootAndPath_loop m dest (next # visited) (info_parent info)
                    (ports @ [info_port info])))"
  by pat_completeness auto

lemma getRootAndPath_measure:
  assumes "fmlookup m next = Some info" and "next \<notin> set visited"
  shows "card (fmdom' m - insert next (set visited)) < card (fmdom' m - set visited)"
proof -
  have "finite (fmdom' m)"
    by (simp add: fmdom'_alt_def)
  then have fin: "finite (fmdom' m - set visited)"
    by (rule finite_Diff)
  have mem: "next \<in> fmdom' m - set visited"
    using assms by (simp add: fmdom'I)
  have eq: "fmdom' m - insert next (set visited) = (fmdom' m - set visited) - {next}"
    by auto
  show ?thesis
    unfolding eq by (rule card_Diff1_less [OF fin mem])
qed

termination getRootAndPath_loop
  by (relation "measure (\<lambda>(m, dest, visited, next, ports). card (fmdom' m - set visited))")
     (auto intro: getRootAndPath_measure)

declare getRootAndPath_loop.simps [simp del]

definition router_getRootAndPath :: "router \<Rightarrow> publicKey \<Rightarrow> publicKey \<times> peerPort list" where
  "router_getRootAndPath r dest = getRootAndPath_loop (infos r) dest [] dest []"

text \<open>
  The loop of \<open>router._getDist\<close>: \<open>idx\<close> runs over the common indices of the two paths,
  here the two lists in step; \<open>dist -= 2\<close> is on \<open>uint64\<close>.
\<close>

fun getDist_loop :: "peerPort list \<Rightarrow> peerPort list \<Rightarrow> uint64 \<Rightarrow> uint64" where
  "getDist_loop (k # ks) (d # ds) dist = (if k = d then getDist_loop ks ds (dist - 2) else dist)"
| "getDist_loop _ _ dist = dist"

definition router_getDist :: "router \<Rightarrow> peerPort list \<Rightarrow> publicKey \<Rightarrow> uint64 \<times> router" where
  "router_getDist r destPath k =
     (let (keyPath, r1) =
            (case fmlookup (cache r) k of
               Some cached \<Rightarrow> (cached, r)
             | None \<Rightarrow>
                 let kp = snd (router_getRootAndPath r k)
                 in (kp, r\<lparr>cache := fmupd k kp (cache r)\<rparr>))
      in (getDist_loop keyPath destPath (of_nat (length keyPath + length destPath)), r1))"

text \<open>
  The fields of a traffic packet that the router reads: \<open>tr.path\<close>, \<open>tr.watermark\<close> and
  \<open>tr.dest\<close>.
\<close>

record traffic =
  path :: "peerPort list"
  watermark :: uint64
  dest :: publicKey

text \<open>The \<open>switch\<close> of \<open>_lookup\<close> on one link \<open>p\<close> of a peer.\<close>

definition lookup_link :: "peer \<Rightarrow> peer option \<Rightarrow> peer option" where
  "lookup_link p bestPeer =
     (case bestPeer of
        None \<Rightarrow> Some p
      | Some b \<Rightarrow>
          if prio p > prio b then bestPeer
          else if time p > time b then bestPeer
          else Some p)"

text \<open>The body of \<open>for k, ps := range r.peers\<close>.\<close>

definition lookup_peer ::
  "peerPort list \<Rightarrow> publicKey \<times> peer list \<Rightarrow> peer option \<times> uint64 \<times> router
     \<Rightarrow> peer option \<times> uint64 \<times> router" where
  "lookup_peer destPath kps acc =
     (case acc of
        (bestPeer, bestDist, r) \<Rightarrow>
          let (dist, r1) = router_getDist r destPath (fst kps)
          in if dist < bestDist then (fold lookup_link (snd kps) bestPeer, dist, r1)
             else (bestPeer, bestDist, r1))"

text \<open>
  \<open>router._lookup\<close>: the next hop or nil, the packet with its watermark as the function
  leaves it, and the router with its path cache filled.
\<close>

definition router_lookup :: "router \<Rightarrow> traffic \<Rightarrow> peer option \<times> traffic \<times> router" where
  "router_lookup r tr =
     (let (dist, r1) = router_getDist r (path tr) (crypto_publicKey (core r))
      in if dist < watermark tr
         then
           (case fold (lookup_peer (path tr)) (peers r1) (None, dist, r1) of
              (bestPeer, bestDist, r2) \<Rightarrow> (bestPeer, tr\<lparr>watermark := dist\<rparr>, r2))
         else (None, tr, r1))"

text \<open>\<open>router.handleTraffic\<close>: send to the next hop, deliver here, or report a broken path.\<close>

datatype trafficResult = SendTraffic peer traffic | Deliver traffic | Broken traffic

definition router_handleTraffic :: "router \<Rightarrow> traffic \<Rightarrow> trafficResult \<times> router" where
  "router_handleTraffic r tr =
     (case router_lookup r tr of
        (Some p, tr1, r1) \<Rightarrow> (SendTraffic p tr1, r1)
      | (None, tr1, r1) \<Rightarrow>
          if dest tr1 = crypto_publicKey (core r1) then (Deliver tr1, r1) else (Broken tr1, r1))"

text \<open>
  A forwarding trajectory: the packet is handled by the routers \<open>rs\<close> in turn, each in
  whatever state it is in, as long as each sends it on. The result is the number of hops
  the packet was sent over.
\<close>

fun forward_hops :: "router list \<Rightarrow> traffic \<Rightarrow> nat" where
  "forward_hops [] tr = 0"
| "forward_hops (r # rs) tr =
     (case fst (router_handleTraffic r tr) of
        SendTraffic p tr1 \<Rightarrow> Suc (forward_hops rs tr1)
      | Deliver tr1 \<Rightarrow> 0
      | Broken tr1 \<Rightarrow> 0)"

section \<open>The peer syncer\<close>

text \<open>
  Modelled from the spec: the package \<open>merkletree\<close> is not part of the sources. The
  spec: a binary trie over keys of fixed bit length \<open>K\<close>; \<open>node_for(prefix, prefix_len)\<close>
  descends "as far as the prefix matches, returning the deepest reached node and how many
  bits matched"; \<open>get_left\<close> and \<open>get_right\<close> set "the bit at position \<open>prefix_len\<close>" to 0
  or 1. Bit \<open>offset\<close> of a key is bit \<open>7 - offset mod 8\<close> of byte \<open>offset div 8\<close>, so that
  the order of the trie is the order of the keys. A bit offset outside the key indexes the
  array out of range, which panics: \<open>None\<close>.
\<close>

definition kbit :: "publicKey \<Rightarrow> nat \<Rightarrow> bool" where
  "kbit k i = bit (Rep_publicKey k ! (i div 8)) (7 - i mod 8)"

definition Key_GetBit :: "publicKey \<Rightarrow> nat \<Rightarrow> bool option" where
  "Key_GetBit k offset =
     (if offset < KeyBits
      then Some (kbit k offset)
      else None)"

definition Key_SetBit :: "publicKey \<Rightarrow> bool \<Rightarrow> nat \<Rightarrow> publicKey option" where
  "Key_SetBit k v offset =
     (if offset < KeyBits
      then
        let b = Rep_publicKey k ! (offset div 8);
            b1 = (if v then set_bit (7 - offset mod 8) b else unset_bit (7 - offset mod 8) b)
        in Some (Abs_publicKey ((Rep_publicKey k)[offset div 8 := b1]))
      else None)"

function NodeFor_loop :: "Node \<Rightarrow> publicKey \<Rightarrow> nat \<Rightarrow> nat \<Rightarrow> error + Node \<times> nat" where
  "NodeFor_loop here k idx n =
     (if idx < n
      then
        (case Key_GetBit k idx of
           None \<Rightarrow> Inl Panic
         | Some b \<Rightarrow>
             (case (if b then Right here else Left here) of
                None \<Rightarrow> Inr (here, idx)
              | Some next \<Rightarrow> NodeFor_loop next k (Suc idx) n))
      else Inr (here, idx))"
  by pat_completeness auto

termination NodeFor_loop
  by (relation "measure (\<lambda>(here, k, idx, n). n - idx)") auto

declare NodeFor_loop.simps [simp del]

definition Tree_NodeFor :: "Tree \<Rightarrow> publicKey \<Rightarrow> nat \<Rightarrow> error + Node \<times> nat" where
  "Tree_NodeFor t k n = NodeFor_loop (Root t) k 0 n"

text \<open>
  The \<open>for\<close> loop of \<open>router.handleMerkleReq\<close>, on the node, \<open>prefixLen\<close> and \<open>prefix\<close>.
  \<open>offset := int(prefixLen)\<close> is the bit that \<open>SetBit\<close> sets.
\<close>

fun merkleReq_loop :: "router \<Rightarrow> peer \<Rightarrow> Node \<Rightarrow> uint64 \<Rightarrow> publicKey \<Rightarrow> error + router" where
  "merkleReq_loop r p (Node d (Some l) (Some rt)) plen pfx =
     Inr (peer_send p (MsgMerkleRes \<lparr>merkleReq = \<lparr>prefixLen = plen, prefix = pfx\<rparr>, digest = d\<rparr>) r)"
| "merkleReq_loop r p (Node d (Some l) None) plen pfx =
     (case Key_SetBit pfx False (unat plen) of
        None \<Rightarrow> Inl Panic
      | Some k \<Rightarrow> merkleReq_loop r p l (plen + 1) k)"
| "merkleReq_loop r p (Node d None (Some rt)) plen pfx =
     (case Key_SetBit pfx True (unat plen) of
        None \<Rightarrow> Inl Panic
      | Some k \<Rightarrow> merkleReq_loop r p rt (plen + 1) k)"
| "merkleReq_loop r p (Node d None None) plen pfx =
     (if plen \<noteq> of_nat KeyBits then Inl Panic
      else
        (case fmlookup (infos r) pfx of
           Some info \<Rightarrow> Inr (peer_send p (MsgAnnounce (routerInfo_getAnnounce info pfx)) r)
         | None \<Rightarrow> Inl Panic))"

text \<open>
  \<open>router.handleMerkleReq\<close>. \<open>r.merks[p.key]\<close> of a key without a tree is the empty
  tree. \<open>int(req.prefixLen)\<close> is the prefix length itself for a request that passes
  \<open>check\<close>.
\<close>

definition router_handleMerkleReq :: "router \<Rightarrow> peer \<Rightarrow> routerMerkleReq \<Rightarrow> error + router" where
  "router_handleMerkleReq r p req =
     (let merk = (case fmlookup (merks r) (peer_key p) of
                    None \<Rightarrow> \<lparr>Root = Node zeroDigest None None\<rparr>
                  | Some t \<Rightarrow> t)
      in case Tree_NodeFor merk (prefix req) (unat (prefixLen req)) of
           Inl e \<Rightarrow> Inl e
         | Inr (node, plen) \<Rightarrow>
             if of_nat plen \<noteq> prefixLen req then Inr r
             else merkleReq_loop r p node (prefixLen req) (prefix req))"

text \<open>
  The words of the claim about this handler: the node reached from \<open>n\<close> along the bits
  \<open>bs\<close>; a chain of nodes with exactly one child each, followed along \<open>bs\<close>; the prefix
  extended from bit \<open>off\<close> on by the bits \<open>bs\<close>; the paths from a node to its leaves;
  the key spelled by a path from the root; and the state of a peer's tree that the
  panics of the handler assert: every leaf lies at depth \<open>K\<close> and its key has a stored
  info.
\<close>

fun descend :: "Node \<Rightarrow> bool list \<Rightarrow> Node option" where
  "descend n [] = Some n"
| "descend n (b # bs) =
     (case (if b then Right n else Left n) of None \<Rightarrow> None | Some c \<Rightarrow> descend c bs)"

fun single_chain :: "Node \<Rightarrow> bool list \<Rightarrow> bool" where
  "single_chain n [] = True"
| "single_chain n (b # bs) =
     (case (Left n, Right n) of
        (Some l, None) \<Rightarrow> \<not> b \<and> single_chain l bs
      | (None, Some rt) \<Rightarrow> b \<and> single_chain rt bs
      | _ \<Rightarrow> False)"

definition setBit :: "publicKey \<Rightarrow> bool \<Rightarrow> nat \<Rightarrow> publicKey" where
  "setBit k v i = (case Key_SetBit k v i of Some k' \<Rightarrow> k' | None \<Rightarrow> k)"

fun extend_prefix :: "publicKey \<Rightarrow> nat \<Rightarrow> bool list \<Rightarrow> publicKey" where
  "extend_prefix k off [] = k"
| "extend_prefix k off (b # bs) = extend_prefix (setBit k b off) (Suc off) bs"

fun leafPaths :: "Node \<Rightarrow> bool list list" where
  "leafPaths (Node d l rt) =
     (case (l, rt) of
        (None, None) \<Rightarrow> [[]]
      | _ \<Rightarrow>
          (case l of None \<Rightarrow> [] | Some c \<Rightarrow> map ((#) False) (leafPaths c)) @
          (case rt of None \<Rightarrow> [] | Some c \<Rightarrow> map ((#) True) (leafPaths c)))"

definition keyOfBits :: "bool list \<Rightarrow> publicKey" where
  "keyOfBits bs = extend_prefix zeroKey 0 bs"

definition merkle_wf :: "(publicKey, routerInfo) fmap \<Rightarrow> Tree \<Rightarrow> bool" where
  "merkle_wf m t \<longleftrightarrow>
     (\<forall>bs \<in> set (leafPaths (Root t)). length bs = KeyBits \<and> fmlookup m (keyOfBits bs) \<noteq> None)"

section \<open>The peer registry\<close>

text \<open>
  \<open>type peers struct\<close> (network/peers.go): the map from port to peer, and whether
  \<open>ps.core.pconn.closed\<close> is closed.
\<close>

record peers_state =
  pconn_closed :: bool
  peers_peers :: "peerPort \<Rightarrow> peer option"

text \<open>
  The loop \<open>for idx := 1; ; idx++\<close> of \<open>addPeer\<close>. \<open>peerPort(idx)\<close> converts the
  \<open>int\<close> to \<open>uint64\<close>, that is modulo \<open>2 ^ 64\<close>, as \<open>of_nat\<close> does. The loop has no
  bound, so the function is partial: \<open>None\<close> is the loop that never ends.
\<close>

partial_function (option) addPeer_port :: "(peerPort \<Rightarrow> peer option) \<Rightarrow> nat \<Rightarrow> peerPort option" where
  "addPeer_port m idx =
     (if m (of_nat idx) \<noteq> None then addPeer_port m (Suc idx) else Some (of_nat idx))"

text \<open>
  \<open>peers.addPeer\<close>. The new peer has the key, the connection and the port found; the
  fields the function does not set are zero.
\<close>

definition peers_addPeer ::
  "peers_state \<Rightarrow> publicKey \<Rightarrow> nat \<Rightarrow> (error + peer \<times> peers_state) option" where
  "peers_addPeer ps k conn =
     (if pconn_closed ps then Some (Inl ErrClosed)
      else
        (case addPeer_port (peers_peers ps) 1 of
           None \<Rightarrow> None
         | Some pt \<Rightarrow>
             let p = \<lparr>peer_key = k, peer_port = pt, peer_conn = conn, prio = 0, time = 0\<rparr>
             in Some (Inr (p, ps\<lparr>peers_peers := (peers_peers ps)(pt \<mapsto> p)\<rparr>))))"

section \<open>Example values\<close>

text \<open>Small concrete announcements, infos and router states, used to run the model.\<close>

definition ex_sigRes :: "uint64 \<Rightarrow> uint64 \<Rightarrow> peerPort \<Rightarrow> routerSigRes" where
  "ex_sigRes s n p = \<lparr>sigReq = \<lparr>seq = s, nonce = n\<rparr>, port = p, psig = zeroSig\<rparr>"

definition ex_ann :: "byte \<Rightarrow> byte \<Rightarrow> uint64 \<Rightarrow> uint64 \<Rightarrow> peerPort \<Rightarrow> routerAnnounce" where
  "ex_ann k p s n pt =
     \<lparr>ann_key = keyOfByte k, ann_parent = keyOfByte p, ann_sigRes = ex_sigRes s n pt,
      ann_sig = zeroSig\<rparr>"

definition ex_info :: "byte \<Rightarrow> uint64 \<Rightarrow> uint64 \<Rightarrow> peerPort \<Rightarrow> routerInfo" where
  "ex_info p s n pt =
     \<lparr>info_parent = keyOfByte p, info_sigRes = ex_sigRes s n pt, info_sig = zeroSig,
      info_expired = False\<rparr>"

definition ex_core :: "byte \<Rightarrow> int \<Rightarrow> core" where
  "ex_core k mx = \<lparr>crypto_publicKey = keyOfByte k, routerRefresh = 100, routerTimeout = 10,
     routerMaxInfos = mx\<rparr>"

definition ex_router :: "byte \<Rightarrow> int \<Rightarrow> (publicKey, routerInfo) fmap \<Rightarrow> (publicKey, nat) fmap \<Rightarrow> router" where
  "ex_router k mx im tms =
     \<lparr>core = ex_core k mx, peers = [], merks = fmempty, infos = im, timers = tms,
      cache = fmempty, requests = fmempty, responses = fmempty, resSeqs = fmempty,
      resSeqCtr = 0, refresh = False, doRoot1 = False, doRoot2 = False, fixTimer = 0,
      theap = (\<lambda>t. None), nextTimer = 10, now = 0, outbox = []\<rparr>"

text \<open>
  An environment for a run of \<open>_fix\<close> in which \<open>range r.infos\<close> yields the keys \<open>ks\<close>:
  no responses and no trees of peers to visit, all nonces 0, \<open>bloomMulticastEnabled\<close>
  false.
\<close>

definition ex_env :: "publicKey list \<Rightarrow> env" where
  "ex_env ks =
     \<lparr>env_sign = (\<lambda>bs. zeroSig), env_verify = (\<lambda>k bs s. True), env_crand = (\<lambda>i. 0),
      env_mrand = 0, env_Add = (\<lambda>t k d. t), env_GetDigest = (\<lambda>bs. zeroDigest),
      bloomMulticastEnabled = False, range_infos = ks, range_responses = [],
      range_merks = []\<rparr>"

definition ex_link :: "byte \<Rightarrow> peerPort \<Rightarrow> nat \<Rightarrow> int \<Rightarrow> peer" where
  "ex_link k pt pr tm =
     \<lparr>peer_key = keyOfByte k, peer_port = pt, peer_conn = 0, prio = pr, time = tm\<rparr>"

text \<open>
  A tree of three nodes: key 1 is the root, key 2 its child over port 1, key 3 the child of
  key 2 over port 1. \<open>ex_root ps\<close> is the root's router with the peers \<open>ps\<close>.
\<close>

definition ex_tree :: "(publicKey, routerInfo) fmap" where
  "ex_tree =
     fmupd (keyOfByte 3) (ex_info 2 1 0 1)
       (fmupd (keyOfByte 2) (ex_info 1 1 0 1)
         (fmupd (keyOfByte 1) (ex_info 1 1 0 0) fmempty))"

definition ex_root :: "(publicKey \<times> peer list) list \<Rightarrow> router" where
  "ex_root ps = (ex_router 1 8 ex_tree fmempty)\<lparr>peers := ps\<rparr>"

definition ex_traffic :: "peerPort list \<Rightarrow> uint64 \<Rightarrow> traffic" where
  "ex_traffic p w = \<lparr>path = p, watermark = w, dest = keyOfByte 9\<rparr>"

text \<open>A registry with the ports 1, 2 and 4 in use.\<close>

definition ex_peers :: peers_state where
  "ex_peers =
     \<lparr>pconn_closed = False,
      peers_peers = [1 \<mapsto> ex_link 5 1 0 0, 2 \<mapsto> ex_link 6 2 0 0,
        4 \<mapsto> ex_link 7 4 0 0]\<rparr>"

definition ex_merkleReq :: routerMerkleReq where
  "ex_merkleReq = \<lparr>prefixLen = 200, prefix = keyOfByte 5\<rparr>"

definition ex_merkleRes :: routerMerkleRes where
  "ex_merkleRes = \<lparr>merkleReq = ex_merkleReq, digest = zeroDigest\<rparr>"

text \<open>
  The timers of a router that has become root: the stopped \<open>fixTimer\<close> at address 0 and
  the refresh timer of the node's own key 1 at address 1.
\<close>

definition ex_heap :: "nat \<Rightarrow> timer option" where
  "ex_heap =
     [0 \<mapsto> \<lparr>deadline = None, func = EmptyFunc\<rparr>,
      1 \<mapsto> \<lparr>deadline = Some 100, func = RefreshFunc (keyOfByte 1)\<rparr>]"

text \<open>
  A router at capacity: own key 1, two infos (keys 1 and 9) with their timers, room for two.
\<close>

definition ex_full :: router where
  "ex_full =
     (ex_router 1 2
        (fmupd (keyOfByte 9) (ex_info 1 1 0 1) (fmupd (keyOfByte 1) (ex_info 1 1 0 0) fmempty))
        (fmupd (keyOfByte 9) 2 (fmupd (keyOfByte 1) 1 fmempty)))
     \<lparr>theap := ex_heap(2 \<mapsto> \<lparr>deadline = Some 10, func = ExpireFunc (keyOfByte 9)\<rparr>)\<rparr>"

text \<open>
  A router with its own info (key 1) and timer, clock at 0, \<open>routerTimeout\<close> 10; the
  announcement of key 2 accepted, its timer (address 10) fired once, and fired twice.
\<close>

definition ex_live :: router where
  "ex_live =
     (ex_router 1 5 (fmupd (keyOfByte 1) (ex_info 1 1 0 0) fmempty)
        (fmupd (keyOfByte 1) 1 fmempty))
     \<lparr>theap := ex_heap\<rparr>"

definition ex_accepted :: router where
  "ex_accepted = snd (router_update 0 ex_live (ex_ann 2 1 1 0 1))"

definition ex_expired :: router where
  "ex_expired = projr (timer_fire (ex_env [keyOfByte 1, keyOfByte 2]) 10 ex_accepted)"

definition ex_deleted :: router where
  "ex_deleted = projr (timer_fire (ex_env [keyOfByte 1]) 10 ex_expired)"

text \<open>
  A tree with a single leaf at the end of the path \<open>bs\<close>, and the Merkle tree of two keys:
  the key of 256 zero bits and the key of 256 one bits. \<open>ex_syncer\<close> holds the infos of
  the two keys and this tree for the peer with key 2.
\<close>

fun chainTree :: "bool list \<Rightarrow> Node" where
  "chainTree [] = Node zeroDigest None None"
| "chainTree (b # bs) =
     (if b then Node zeroDigest None (Some (chainTree bs))
      else Node zeroDigest (Some (chainTree bs)) None)"

definition ex_merk :: Tree where
  "ex_merk =
     \<lparr>Root = Node zeroDigest (Some (chainTree (False # replicate 254 False)))
                (Some (chainTree (True # replicate 254 True)))\<rparr>"

definition ex_syncer :: router where
  "ex_syncer =
     (ex_router 1 8
        (fmupd (keyOfBits (False # False # replicate 254 False)) (ex_info 1 1 0 0)
          (fmupd (keyOfBits (True # True # replicate 254 True)) (ex_info 1 1 0 1) fmempty))
        fmempty)\<lparr>merks := fmupd (keyOfByte 2) ex_merk fmempty\<rparr>"

section \<open>Properties\<close>

subsection \<open>The order on keys\<close>

lemma length_Rep_publicKey [simp]: "length (Rep_publicKey k) = publicKeySize"
  using Rep_publicKey [of k] by simp

lemma treeLess_bytes_irrefl: "\<not> treeLess_bytes xs xs"
  by (induction xs) auto

lemma treeLess_bytes_total:
  "length xs = length ys \<Longrightarrow> \<not> treeLess_bytes xs ys \<Longrightarrow> \<not> treeLess_bytes ys xs \<Longrightarrow> xs = ys"
  by (induction xs ys rule: treeLess_bytes.induct) (auto split: if_splits)

lemma treeLess_bytes_asym: "treeLess_bytes xs ys \<Longrightarrow> \<not> treeLess_bytes ys xs"
  by (induction xs ys rule: treeLess_bytes.induct) (auto split: if_splits)

lemma treeLess_bytes_trans:
  "length xs = length ys \<Longrightarrow> length ys = length zs \<Longrightarrow>
   treeLess_bytes xs ys \<Longrightarrow> treeLess_bytes ys zs \<Longrightarrow> treeLess_bytes xs zs"
proof (induction xs ys arbitrary: zs rule: treeLess_bytes.induct)
  case (1 a as b bs)
  then obtain c cs where zs: "zs = c # cs" by (cases zs) auto
  with 1 show ?case by (auto split: if_splits)
qed auto

lemma publicKey_less_irrefl [simp]: "\<not> publicKey_less k k"
  by (simp add: publicKey_less_def treeLess_def treeLess_bytes_irrefl)

lemma publicKey_less_total: "\<not> publicKey_less a b \<Longrightarrow> \<not> publicKey_less b a \<Longrightarrow> a = b"
  unfolding publicKey_less_def treeLess_def
  using treeLess_bytes_total [of "Rep_publicKey a" "Rep_publicKey b"]
  by (simp add: Rep_publicKey_inject)

lemma publicKey_less_asym: "publicKey_less a b \<Longrightarrow> \<not> publicKey_less b a"
  unfolding publicKey_less_def treeLess_def by (rule treeLess_bytes_asym)

lemma publicKey_less_trans: "publicKey_less a b \<Longrightarrow> publicKey_less b c \<Longrightarrow> publicKey_less a c"
  unfolding publicKey_less_def treeLess_def
  by (rule treeLess_bytes_trans [of _ "Rep_publicKey b"]) simp_all

lemma Rep_keyOfByte: "Rep_publicKey (keyOfByte b) = replicate (publicKeySize - 1) 0 @ [b]"
  unfolding keyOfByte_def by (rule Abs_publicKey_inverse) (simp add: publicKeySize_def)

lemma keyOfByte_eq_iff [simp]: "keyOfByte a = keyOfByte b \<longleftrightarrow> a = b"
  by (auto simp flip: Rep_publicKey_inject simp: Rep_keyOfByte)

lemma treeLess_bytes_append_same: "treeLess_bytes (xs @ ys) (xs @ zs) = treeLess_bytes ys zs"
  by (induction xs) auto

lemma publicKey_less_keyOfByte [simp]: "publicKey_less (keyOfByte a) (keyOfByte b) \<longleftrightarrow> a < b"
  by (simp add: publicKey_less_def treeLess_def Rep_keyOfByte treeLess_bytes_append_same)

lemma Rep_zeroKey: "Rep_publicKey zeroKey = replicate publicKeySize 0"
  unfolding zeroKey_def by (rule Abs_publicKey_inverse) simp

lemma treeLess_bytes_zero: "\<not> treeLess_bytes xs (replicate n 0)"
proof (induction xs arbitrary: n)
  case Nil
  show ?case by simp
next
  case (Cons x xs)
  show ?case
  proof (cases n)
    case 0
    then show ?thesis by simp
  next
    case (Suc m)
    then show ?thesis using Cons [of m] by simp
  qed
qed

lemma publicKey_less_zeroKey [simp]: "\<not> publicKey_less k zeroKey"
  by (simp add: publicKey_less_def treeLess_def Rep_zeroKey treeLess_bytes_zero)

subsection \<open>The announcement store\<close>

text \<open>
  C9. An announcement whose key has no stored entry is always accepted by \<open>_update\<close>: it
  returns true, stores the info built from the announcement, not expired, and registers a
  new timer for the key. The comparison rules are not consulted, and there is no hypothesis
  on the signatures or on the port: \<open>_update\<close> validates nothing.
\<close>

theorem update_unknown_key:
  assumes "fmlookup (infos r) (ann_key ann) = None"
  shows "fst (router_update rnd r ann) \<and>
         fmlookup (infos (snd (router_update rnd r ann))) (ann_key ann) =
           Some \<lparr>info_parent = ann_parent ann, info_sigRes = ann_sigRes ann,
                 info_sig = ann_sig ann, info_expired = False\<rparr> \<and>
         fmlookup (timers (snd (router_update rnd r ann))) (ann_key ann) = Some (nextTimer r) \<and>
         nextTimer (snd (router_update rnd r ann)) = Suc (nextTimer r)"
  using assms
  by (auto simp: router_update_def router_resetCache_def time_AfterFunc_def timer_Stop_def Let_def
           split: option.splits)

theorem update_unknown_key_witness:
  "fmlookup (infos (ex_router 1 5 fmempty fmempty)) (ann_key (ex_ann 2 3 7 9 0)) = None \<and>
   ann_port (ex_ann 2 3 7 9 0) = 0 \<and>
   ann_key (ex_ann 2 3 7 9 0) \<noteq> ann_parent (ex_ann 2 3 7 9 0) \<and>
   fst (router_update 0 (ex_router 1 5 fmempty fmempty) (ex_ann 2 3 7 9 0)) \<and>
   fmlookup (infos (snd (router_update 0 (ex_router 1 5 fmempty fmempty) (ex_ann 2 3 7 9 0))))
     (keyOfByte 2) = Some (ex_info 3 7 9 0) \<and>
   fmlookup (timers (snd (router_update 0 (ex_router 1 5 fmempty fmempty) (ex_ann 2 3 7 9 0))))
     (keyOfByte 2) = Some 10"
  using update_unknown_key [of "ex_router 1 5 fmempty fmempty" "ex_ann 2 3 7 9 0" 0]
  by (simp add: ex_router_def ex_ann_def ex_info_def ex_sigRes_def)

text \<open>
  C1. For an announcement \<open>a\<close> whose key has the stored info \<open>i\<close>, \<open>_update\<close> accepts
  exactly when the first differing rule accepts: a higher seq; with equal seq a lower
  parent; with equal seq and parent a lower nonce. With equal seq, parent and nonce it
  rejects. On every reject the router state is returned as it was, and \<open>_handleAnnounce\<close>
  returns it as it was too: nothing is sent and \<open>_fix\<close> does not run.
\<close>

theorem update_known_key:
  assumes "fmlookup (infos r) (ann_key a) = Some i"
  shows "(fst (router_update rnd r a) \<longleftrightarrow>
            info_seq i < ann_seq a \<or>
            info_seq i = ann_seq a \<and>
              (publicKey_less (ann_parent a) (info_parent i) \<or>
               ann_parent a = info_parent i \<and> ann_nonce a < info_nonce i)) \<and>
         (info_seq i = ann_seq a \<and> info_parent i = ann_parent a \<and> info_nonce i = ann_nonce a
            \<longrightarrow> \<not> fst (router_update rnd r a)) \<and>
         (\<not> fst (router_update rnd r a) \<longrightarrow>
            snd (router_update rnd r a) = r \<and>
            router_handleAnnounce e rnd ks r sender a = Inr r)"
proof -
  have acc: "update_accepts i a \<longleftrightarrow>
            info_seq i < ann_seq a \<or>
            info_seq i = ann_seq a \<and>
              (publicKey_less (ann_parent a) (info_parent i) \<or>
               ann_parent a = info_parent i \<and> ann_nonce a < info_nonce i)"
    unfolding update_accepts_def
    using publicKey_less_total [of "info_parent i" "ann_parent a"]
          publicKey_less_asym [of "info_parent i" "ann_parent a"]
    by (auto simp: not_less)
  have fst_eq: "fst (router_update rnd r a) = update_accepts i a"
    using assms by (simp add: router_update_def Let_def split: prod.splits)
  have rej: "\<not> update_accepts i a \<Longrightarrow> router_update rnd r a = (False, r)"
    using assms by (simp add: router_update_def)
  have hnd: "\<not> update_accepts i a \<Longrightarrow> router_handleAnnounce e rnd ks r sender a = Inr r"
    using assms rej by (simp add: router_handleAnnounce_def Let_def split: prod.splits)
  show ?thesis
    using acc fst_eq rej hnd by auto
qed

theorem update_known_key_witness:
  "fmlookup (infos (ex_router 1 5 (fmupd (keyOfByte 2) (ex_info 3 7 9 1) fmempty) fmempty))
     (ann_key (ex_ann 2 3 7 9 1)) = Some (ex_info 3 7 9 1) \<and>
   \<not> fst (router_update 0 (ex_router 1 5 (fmupd (keyOfByte 2) (ex_info 3 7 9 1) fmempty) fmempty)
          (ex_ann 2 3 7 9 1)) \<and>
   router_handleAnnounce (ex_env [keyOfByte 2]) 0 [keyOfByte 2]
     (ex_router 1 5 (fmupd (keyOfByte 2) (ex_info 3 7 9 1) fmempty) fmempty)
     \<lparr>peer_key = keyOfByte 4, peer_port = 1, peer_conn = 0, prio = 0, time = 0\<rparr>
     (ex_ann 2 3 7 9 1) =
   Inr (ex_router 1 5 (fmupd (keyOfByte 2) (ex_info 3 7 9 1) fmempty) fmempty)"
  using update_known_key [of "ex_router 1 5 (fmupd (keyOfByte 2) (ex_info 3 7 9 1) fmempty) fmempty"
      "ex_ann 2 3 7 9 1" "ex_info 3 7 9 1" 0 "ex_env [keyOfByte 2]" "[keyOfByte 2]"
      "\<lparr>peer_key = keyOfByte 4, peer_port = 1, peer_conn = 0, prio = 0, time = 0\<rparr>"]
  by (simp add: ex_router_def ex_ann_def ex_info_def ex_sigRes_def)

subsection \<open>The forwarder\<close>

lemmas ex_defs = ex_root_def ex_router_def ex_core_def ex_tree_def ex_info_def ex_sigRes_def
  ex_ann_def ex_link_def ex_traffic_def

lemmas lookup_defs = router_lookup_def router_getDist_def router_getRootAndPath_def
  getRootAndPath_loop.simps lookup_peer_def lookup_link_def router_handleTraffic_def Let_def

lemma router_lookup_drop:
  assumes "watermark tr \<le> fst (router_getDist r (path tr) (crypto_publicKey (core r)))"
  shows "router_lookup r tr =
           (None, tr, snd (router_getDist r (path tr) (crypto_publicKey (core r))))"
proof -
  have "\<not> fst (router_getDist r (path tr) (crypto_publicKey (core r))) < watermark tr"
    using assms by (simp add: not_less)
  then show ?thesis
    by (simp add: router_lookup_def Let_def case_prod_beta)
qed

lemma router_lookup_watermark:
  "fst (router_getDist r (path tr) (crypto_publicKey (core r))) < watermark tr \<Longrightarrow>
   fst (snd (router_lookup r tr)) =
     tr\<lparr>watermark := fst (router_getDist r (path tr) (crypto_publicKey (core r)))\<rparr>"
  by (simp add: router_lookup_def Let_def case_prod_beta)

lemma router_lookup_Some:
  assumes "fst (router_lookup r tr) = Some p"
  shows "fst (router_getDist r (path tr) (crypto_publicKey (core r))) < watermark tr"
proof (rule ccontr)
  assume "\<not> ?thesis"
  then have "watermark tr \<le> fst (router_getDist r (path tr) (crypto_publicKey (core r)))"
    by simp
  from router_lookup_drop [OF this] assms show False by simp
qed

lemma handleTraffic_send:
  assumes "fst (router_handleTraffic r tr) = SendTraffic p tr1"
  shows "watermark tr1 < watermark tr"
proof -
  from assms have some: "fst (router_lookup r tr) = Some p" and tr1: "tr1 = fst (snd (router_lookup r tr))"
    by (auto simp: router_handleTraffic_def case_prod_beta split: option.splits if_splits)
  have lt: "fst (router_getDist r (path tr) (crypto_publicKey (core r))) < watermark tr"
    by (rule router_lookup_Some [OF some])
  show ?thesis
    using lt tr1 router_lookup_watermark [OF lt] by simp
qed

lemma forward_hops_bound: "forward_hops rs tr \<le> unat (watermark tr)"
proof (induction rs arbitrary: tr)
  case Nil
  show ?case by simp
next
  case (Cons r rs)
  show ?case
  proof (cases "fst (router_handleTraffic r tr)")
    case (SendTraffic p tr1)
    have "watermark tr1 < watermark tr"
      by (rule handleTraffic_send [OF SendTraffic])
    then have "unat (watermark tr1) < unat (watermark tr)"
      by (simp add: word_less_nat_alt)
    moreover have "forward_hops rs tr1 \<le> unat (watermark tr1)"
      by (rule Cons.IH)
    ultimately show ?thesis
      using SendTraffic by simp
  next
    case (Deliver tr1)
    then show ?thesis by simp
  next
    case (Broken tr1)
    then show ?thesis by simp
  qed
qed

text \<open>
  C2. \<open>_lookup\<close> returns nil, and leaves the packet as it is, whenever the node's own
  distance to the destination path is at least the packet's watermark. Whenever it
  returns a peer, it has set the watermark to the node's own distance, which is strictly
  below the incoming watermark. So every hop that \<open>handleTraffic\<close> forwards lowers the
  watermark, and a packet is forwarded over at most as many hops as its initial watermark,
  whatever routers it meets. A packet with watermark 5 at a node at distance 5 is not
  forwarded.
\<close>

theorem lookup_watermark:
  "(watermark tr \<le> fst (router_getDist r (path tr) (crypto_publicKey (core r))) \<longrightarrow>
      fst (router_lookup r tr) = None \<and> fst (snd (router_lookup r tr)) = tr) \<and>
   (fst (router_lookup r tr) \<noteq> None \<longrightarrow>
      watermark (fst (snd (router_lookup r tr))) =
        fst (router_getDist r (path tr) (crypto_publicKey (core r))) \<and>
      watermark (fst (snd (router_lookup r tr))) < watermark tr) \<and>
   (\<forall>p tr1. fst (router_handleTraffic r tr) = SendTraffic p tr1 \<longrightarrow>
      watermark tr1 < watermark tr) \<and>
   forward_hops rs tr \<le> unat (watermark tr) \<and>
   (watermark tr = 5 \<and> fst (router_getDist r (path tr) (crypto_publicKey (core r))) = 5 \<longrightarrow>
      fst (router_lookup r tr) = None)"
proof -
  have a: "watermark tr \<le> fst (router_getDist r (path tr) (crypto_publicKey (core r))) \<Longrightarrow>
      fst (router_lookup r tr) = None \<and> fst (snd (router_lookup r tr)) = tr"
    by (simp add: router_lookup_drop)
  have b: "fst (router_lookup r tr) \<noteq> None \<Longrightarrow>
      watermark (fst (snd (router_lookup r tr))) =
        fst (router_getDist r (path tr) (crypto_publicKey (core r))) \<and>
      watermark (fst (snd (router_lookup r tr))) < watermark tr"
  proof -
    assume "fst (router_lookup r tr) \<noteq> None"
    then obtain p where "fst (router_lookup r tr) = Some p" by auto
    then have lt: "fst (router_getDist r (path tr) (crypto_publicKey (core r))) < watermark tr"
      by (rule router_lookup_Some)
    show ?thesis using lt router_lookup_watermark [OF lt] by simp
  qed
  have c: "\<forall>p tr1. fst (router_handleTraffic r tr) = SendTraffic p tr1 \<longrightarrow>
      watermark tr1 < watermark tr"
    using handleTraffic_send by blast
  have d: "watermark tr = 5 \<and> fst (router_getDist r (path tr) (crypto_publicKey (core r))) = 5 \<Longrightarrow>
      fst (router_lookup r tr) = None"
    using a by simp
  show ?thesis
    using a b c d forward_hops_bound [of rs tr] by blast
qed

theorem lookup_watermark_witness:
  "watermark (ex_traffic [1, 1, 1, 1, 1] 5) = 5 \<and>
   fst (router_getDist (ex_root [(keyOfByte 2, [ex_link 2 1 1 5])])
          (path (ex_traffic [1, 1, 1, 1, 1] 5)) (keyOfByte 1)) = 5 \<and>
   fst (router_lookup (ex_root [(keyOfByte 2, [ex_link 2 1 1 5])])
          (ex_traffic [1, 1, 1, 1, 1] 5)) = None \<and>
   fst (router_lookup (ex_root [(keyOfByte 2, [ex_link 2 1 1 5])])
          (ex_traffic [1, 1, 1] 5)) = Some (ex_link 2 1 1 5) \<and>
   watermark (fst (snd (router_lookup (ex_root [(keyOfByte 2, [ex_link 2 1 1 5])])
          (ex_traffic [1, 1, 1] 5)))) = 3 \<and>
   forward_hops [ex_root [(keyOfByte 2, [ex_link 2 1 1 5])],
                 ex_root [(keyOfByte 2, [ex_link 2 1 1 5])]] (ex_traffic [1, 1, 1] 5) = 1"
  using lookup_watermark [of "ex_traffic [1, 1, 1, 1, 1] 5"
          "ex_root [(keyOfByte 2, [ex_link 2 1 1 5])]" "[]"]
        lookup_watermark [of "ex_traffic [1, 1, 1] 5"
          "ex_root [(keyOfByte 2, [ex_link 2 1 1 5])]"
          "[ex_root [(keyOfByte 2, [ex_link 2 1 1 5])],
            ex_root [(keyOfByte 2, [ex_link 2 1 1 5])]]"]
  by (simp add: ex_defs lookup_defs)

text \<open>
  C7. Among the parallel links of a closer peer, the claim picks the link of lowest
  \<open>prio\<close>, the earliest \<open>time\<close> breaking ties. The \<open>switch\<close> of \<open>_lookup\<close> skips a link
  of lower \<open>prio\<close> when it came up later than the link held so far, and it compares the
  links of a closer peer with the link kept from a farther peer. First run: peer 2 has the
  links (prio 2, time 5) and (prio 1, time 10), visited in this order; the link of prio 2
  is returned. Second run: peer 2 at distance 2 has a link of prio 1, peer 3 at distance 1
  a link of prio 2; the link to peer 2 is returned.
\<close>

theorem lookup_keeps_worse_link:
  "fst (router_lookup
          (ex_root [(keyOfByte 2, [ex_link 2 1 2 5, ex_link 2 2 1 10])])
          (ex_traffic [1, 1, 1] 5)) = Some (ex_link 2 1 2 5) \<and>
   fst (router_lookup
          (ex_root [(keyOfByte 2, [ex_link 2 1 1 5]), (keyOfByte 3, [ex_link 3 2 2 5])])
          (ex_traffic [1, 1, 1] 5)) = Some (ex_link 2 1 1 5)"
  by (simp add: ex_defs lookup_defs)

subsection \<open>The peer registry\<close>

lemma addPeer_port_run:
  assumes "m (of_nat n) = None" and "\<forall>j. idx \<le> j \<and> j < n \<longrightarrow> m (of_nat j) \<noteq> None" and "idx \<le> n"
  shows "addPeer_port m idx = Some (of_nat n)"
  using assms
proof (induction "n - idx" arbitrary: idx)
  case 0
  then have "idx = n" by simp
  with 0 show ?case by (simp add: addPeer_port.simps)
next
  case (Suc d)
  then have lt: "idx < n" by simp
  with Suc.prems have used: "m (of_nat idx) \<noteq> None" by simp
  have "addPeer_port m (Suc idx) = Some (of_nat n)"
  proof (rule Suc.hyps(1))
    show "d = n - Suc idx" using Suc.hyps(2) by simp
    show "m (of_nat n) = None" by (rule Suc.prems(1))
    show "\<forall>j. Suc idx \<le> j \<and> j < n \<longrightarrow> m (of_nat j) \<noteq> None" using Suc.prems(2) by simp
    show "Suc idx \<le> n" using lt by simp
  qed
  with used show ?case by (subst addPeer_port.simps) simp
qed

lemma addPeer_port_least:
  fixes m :: "peerPort \<Rightarrow> peer option"
  assumes "q \<noteq> 0" and "m q = None"
  shows "\<exists>pt. addPeer_port m 1 = Some pt \<and> pt \<noteq> 0 \<and> m pt = None \<and>
              (\<forall>q'. q' \<noteq> 0 \<and> q' < pt \<longrightarrow> m q' \<noteq> None)"
proof -
  define P where "P n \<longleftrightarrow> 1 \<le> n \<and> m (of_nat n) = None" for n
  define n where "n = (LEAST n. P n)"
  have Pq: "P (unat q)"
    using assms by (simp add: P_def unat_gt_0 Suc_le_eq)
  have Pn: "P n"
    unfolding n_def by (rule LeastI [of P, OF Pq])
  have le: "n \<le> unat q"
    unfolding n_def using Pq by (rule Least_le)
  have min: "\<And>j. j < n \<Longrightarrow> \<not> P j"
    unfolding n_def by (rule not_less_Least)
  have "unat q < 2 ^ 64"
    using unsigned_less [of q, where 'a = nat] by simp
  with le have bound: "n < 2 ^ 64"
    by simp
  have un: "unat (of_nat n :: peerPort) = n"
    using bound by (simp add: unat_of_nat)
  have run: "addPeer_port m 1 = Some (of_nat n)"
  proof (rule addPeer_port_run)
    show "m (of_nat n) = None" using Pn by (simp add: P_def)
    show "\<forall>j. 1 \<le> j \<and> j < n \<longrightarrow> m (of_nat j) \<noteq> None"
      using min by (auto simp: P_def)
    show "1 \<le> n" using Pn by (simp add: P_def)
  qed
  have nz: "(of_nat n :: peerPort) \<noteq> 0"
  proof
    assume "(of_nat n :: peerPort) = 0"
    then have "unat (of_nat n :: peerPort) = 0" by simp
    with un Pn show False by (simp add: P_def)
  qed
  have smaller: "\<forall>q'. q' \<noteq> 0 \<and> q' < (of_nat n :: peerPort) \<longrightarrow> m q' \<noteq> None"
  proof (intro allI impI)
    fix q' :: peerPort
    assume a: "q' \<noteq> 0 \<and> q' < of_nat n"
    then have "unat q' < n"
      using un by (simp add: word_less_nat_alt)
    then have "\<not> P (unat q')" by (rule min)
    moreover have "1 \<le> unat q'" using a by (simp add: unat_gt_0 Suc_le_eq)
    ultimately show "m q' \<noteq> None" by (simp add: P_def)
  qed
  show ?thesis
    using run nz Pn smaller by (auto simp: P_def)
qed

text \<open>
  C10. On a registry that is not closed and has some port other than 0 free (a Go map
  cannot hold \<open>2 ^ 64 - 1\<close> entries, so one always is), \<open>addPeer\<close> returns, and the new
  peer's port is the smallest port from 1 upwards that is not in use: it is not 0, it was
  free, and every smaller port other than 0 is in use. The registry gains exactly this
  peer under this port. So no peer ever has port 0.
\<close>

theorem addPeer_smallest_port:
  assumes "\<not> pconn_closed ps" and "q \<noteq> 0" and "peers_peers ps q = None"
  shows "\<exists>p. peers_addPeer ps k conn =
               Some (Inr (p, ps\<lparr>peers_peers := (peers_peers ps)(peer_port p \<mapsto> p)\<rparr>)) \<and>
             peer_key p = k \<and> peer_port p \<noteq> 0 \<and> peers_peers ps (peer_port p) = None \<and>
             (\<forall>q'. q' \<noteq> 0 \<and> q' < peer_port p \<longrightarrow> peers_peers ps q' \<noteq> None)"
proof -
  from addPeer_port_least [of q "peers_peers ps"] assms(2,3) obtain pt where
    pt: "addPeer_port (peers_peers ps) 1 = Some pt" "pt \<noteq> 0" "peers_peers ps pt = None"
        "\<forall>q'. q' \<noteq> 0 \<and> q' < pt \<longrightarrow> peers_peers ps q' \<noteq> None"
    by blast
  show ?thesis
    using assms(1) pt by (simp add: peers_addPeer_def Let_def)
qed

theorem addPeer_smallest_port_witness:
  "\<not> pconn_closed ex_peers \<and> (3 :: peerPort) \<noteq> 0 \<and> peers_peers ex_peers 3 = None \<and>
   peers_addPeer ex_peers (keyOfByte 8) 0 =
     Some (Inr (ex_link 8 3 0 0, ex_peers\<lparr>peers_peers := (peers_peers ex_peers)(3 \<mapsto> ex_link 8 3 0 0)\<rparr>))"
proof -
  have h1: "\<not> pconn_closed ex_peers" by (simp add: ex_peers_def)
  have h2: "(3 :: peerPort) \<noteq> 0" by simp
  have h3: "peers_peers ex_peers 3 = None" by (simp add: ex_peers_def)
  from addPeer_smallest_port [OF h1 h2 h3, of "keyOfByte 8" 0] obtain p where
    p: "peers_addPeer ex_peers (keyOfByte 8) 0 =
          Some (Inr (p, ex_peers\<lparr>peers_peers := (peers_peers ex_peers)(peer_port p \<mapsto> p)\<rparr>))"
       "peer_key p = keyOfByte 8" "peer_port p \<noteq> 0" "peers_peers ex_peers (peer_port p) = None"
       "\<forall>q'. q' \<noteq> 0 \<and> q' < peer_port p \<longrightarrow> peers_peers ex_peers q' \<noteq> None"
    by blast
  have "peers_addPeer ex_peers (keyOfByte 8) 0 =
     Some (Inr (ex_link 8 3 0 0, ex_peers\<lparr>peers_peers := (peers_peers ex_peers)(3 \<mapsto> ex_link 8 3 0 0)\<rparr>))"
    by (simp add: peers_addPeer_def addPeer_port.simps ex_peers_def ex_link_def Let_def)
  with h1 h2 h3 show ?thesis by simp
qed

subsection \<open>Wire encoding\<close>

lemma m7b: "(0x7f :: byte) = mask 7" by (simp add: mask_eq_exp_minus_1)
lemma m7w: "(0x7f :: uint64) = mask 7" by (simp add: mask_eq_exp_minus_1)

lemma bit_128_word: "bit (0x80 :: 'a::len word) n \<longleftrightarrow> n = 7 \<and> 7 < LENGTH('a)"
proof -
  have "bit (2 ^ 7 :: 'a word) n \<longleftrightarrow> n = 7 \<and> 7 < LENGTH('a)"
    by (simp only: bit_exp_iff) (auto simp: possible_bit_word)
  then show ?thesis by simp
qed

lemma lt128_bits:
  fixes v :: uint64
  assumes "v < 0x80" and "bit v n"
  shows "n < 7"
proof -
  have "v < 2 ^ 7" using assms(1) by simp
  then have "v AND mask 7 = v" by (rule less_mask_eq)
  then have "bit (v AND mask 7) n" using assms(2) by simp
  then show ?thesis by (simp add: bit_simps)
qed

lemma small_ucast_lt: "(v :: uint64) < 0x80 \<Longrightarrow> (ucast v :: byte) < 0x80"
proof -
  assume a: "v < 0x80"
  have "(ucast v :: byte) AND mask 7 = ucast v"
    by (rule bit_word_eqI) (auto simp: bit_simps dest: lt128_bits [OF a])
  then have "(ucast v :: byte) < 2 ^ 7"
    using mask_eq_iff_w2p [of 7 "ucast v :: byte"] by (simp add: word_size)
  then show ?thesis by simp
qed

lemma small_ucast_id: "(v :: uint64) < 0x80 \<Longrightarrow> (ucast (ucast v :: byte) :: uint64) = v"
  by (rule bit_word_eqI) (auto simp: bit_simps dest: lt128_bits)

lemma big_not_lt: "\<not> ((ucast (v :: uint64) OR 0x80 :: byte) < 0x80)"
proof -
  have "(0x80 :: byte) \<le> ucast v OR 0x80"
    by (rule le_word_or1)
  then show ?thesis by (simp add: not_less)
qed

lemma bit_128_int: "bit (128 :: int) n \<longleftrightarrow> n = 7"
proof -
  have "bit (2 ^ 7 :: int) n \<longleftrightarrow> n = 7"
    by (simp only: bit_exp_iff) auto
  then show ?thesis by simp
qed

lemma ucast_low7: "(ucast ((ucast (v :: uint64) OR 0x80 :: byte) AND 0x7f) :: uint64) = v AND 0x7f"
  unfolding m7b m7w
  by (rule bit_word_eqI) (auto simp: bit_simps bit_128_word bit_128_int)

lemma push_split: "push_bit s ((v :: uint64) AND 0x7f) OR push_bit (s + 7) (drop_bit 7 v) = push_bit s v"
  unfolding m7w
proof (rule bit_word_eqI)
  fix n
  assume "n < LENGTH(64)"
  show "bit (push_bit s (v AND mask 7) OR push_bit (s + 7) (drop_bit 7 v)) n = bit (push_bit s v) n"
  proof (cases "n - s < 7")
    case True
    then show ?thesis by (auto simp: bit_simps)
  next
    case False
    then have "7 + (n - (s + 7)) = n - s" by simp
    with False show ?thesis by (auto simp: bit_simps)
  qed
qed

lemma unat_small_ucast: "(v :: uint64) < 0x80 \<Longrightarrow> unat (ucast v :: byte) = unat v"
proof -
  assume a: "v < 0x80"
  have "unat (ucast v :: byte) = unat (take_bit 8 v)"
    by (simp add: unsigned_ucast_eq unsigned_take_bit_eq)
  also have "take_bit 8 v = v"
    by (rule bit_word_eqI) (auto simp: bit_simps dest: lt128_bits [OF a])
  finally show ?thesis .
qed

lemma bound_step:
  fixes v :: uint64
  assumes "i \<le> 8" and "unat v < 2 ^ (64 - 7 * i)"
  shows "unat (drop_bit 7 v) < 2 ^ (64 - 7 * Suc i)"
proof -
  define k where "k = 64 - 7 * Suc i"
  have "64 - 7 * i = k + 7" using assms(1) by (simp add: k_def)
  then have "unat v < 2 ^ (k + 7)" using assms(2) by (simp only:)
  then have "unat v < 2 ^ k * 128" by (simp only: power_add) simp
  then have "unat v div 128 < 2 ^ k"
    by (simp add: less_mult_imp_div_less)
  then show ?thesis by (simp add: drop_bit_eq_div unat_div k_def)
qed

lemma putUvarint_small:
  assumes "v < 0x80"
  shows "putUvarint v = [ucast v]"
proof -
  have "\<not> 0x80 \<le> v" using assms by (simp add: not_le)
  then show ?thesis by (subst putUvarint.simps) (simp only: if_False)
qed

lemma putUvarint_big:
  assumes "0x80 \<le> v"
  shows "putUvarint v = (ucast v OR 0x80) # putUvarint (drop_bit 7 v)"
  by (subst putUvarint.simps) (simp only: assms if_True)

lemma uvarint_loop_last:
  fixes v :: uint64
  assumes "i \<le> 9" and "unat v < 2 ^ (64 - 7 * i)" and small: "v < 0x80"
  shows "uvarint_loop (ucast v # rest) i x (7 * i) = (x OR push_bit (7 * i) v, int i + 1)"
proof -
  have nb: "\<not> (i = 9 \<and> 1 < (ucast v :: byte))"
  proof
    assume b: "i = 9 \<and> 1 < (ucast v :: byte)"
    then have "unat v < 2" using assms(2) by simp
    moreover have "1 < unat (ucast v :: byte)"
      using b by (simp add: word_less_nat_alt)
    ultimately show False using unat_small_ucast [OF small] by simp
  qed
  have i10: "i \<noteq> 10" using assms(1) by simp
  show ?thesis
    using i10 nb small_ucast_lt [OF small] small_ucast_id [OF small]
    by simp
qed

lemma uvarint_loop_more:
  fixes v :: uint64
  assumes "i \<le> 8"
  shows "uvarint_loop ((ucast v OR 0x80) # bs) i x (7 * i) =
           uvarint_loop bs (Suc i) (x OR push_bit (7 * i) (v AND 0x7f)) (7 * i + 7)"
proof -
  have i10: "i \<noteq> 10" using assms by simp
  show ?thesis
    using i10 big_not_lt [of v] by (simp add: ucast_low7)
qed

lemma uvarint_loop_put:
  "i \<le> 9 \<Longrightarrow> unat v < 2 ^ (64 - 7 * i) \<Longrightarrow>
   uvarint_loop (putUvarint v @ rest) i x (7 * i) =
     (x OR push_bit (7 * i) v, int i + int (length (putUvarint v)))"
proof (induction v arbitrary: i x rule: putUvarint.induct)
  case (1 v)
  show ?case
  proof (cases "0x80 \<le> v")
    case False
    then have small: "v < 0x80" by (simp add: not_le)
    show ?thesis
      using uvarint_loop_last [OF "1.prems" small, of rest x]
      by (simp add: putUvarint_small [OF small])
  next
    case True
    have i8: "i \<le> 8"
    proof (rule ccontr)
      assume "\<not> i \<le> 8"
      then have "i = 9" using "1.prems"(1) by simp
      then have "unat v < 2" using "1.prems"(2) by simp
      moreover have "128 \<le> unat v" using True by (simp add: word_le_nat_alt)
      ultimately show False by simp
    qed
    have s7: "7 * i + 7 = 7 * Suc i" by simp
    have ih: "uvarint_loop (putUvarint (drop_bit 7 v) @ rest) (Suc i)
                (x OR push_bit (7 * i) (v AND 0x7f)) (7 * Suc i) =
              ((x OR push_bit (7 * i) (v AND 0x7f)) OR push_bit (7 * Suc i) (drop_bit 7 v),
               int (Suc i) + int (length (putUvarint (drop_bit 7 v))))"
    proof (rule "1.IH" [OF True])
      show "Suc i \<le> 9" using i8 by simp
      show "unat (drop_bit 7 v) < 2 ^ (64 - 7 * Suc i)"
        by (rule bound_step [OF i8 "1.prems"(2)])
    qed
    have join: "(x OR push_bit (7 * i) (v AND 0x7f)) OR push_bit (7 * i + 7) (drop_bit 7 v) =
                x OR push_bit (7 * i) v"
      by (simp only: or.assoc push_split)
    have "uvarint_loop (putUvarint v @ rest) i x (7 * i) =
          uvarint_loop (putUvarint (drop_bit 7 v) @ rest) (Suc i)
            (x OR push_bit (7 * i) (v AND 0x7f)) (7 * i + 7)"
      by (simp only: putUvarint_big [OF True] append_Cons uvarint_loop_more [OF i8])
    also have "\<dots> = ((x OR push_bit (7 * i) (v AND 0x7f)) OR push_bit (7 * i + 7) (drop_bit 7 v),
               int (Suc i) + int (length (putUvarint (drop_bit 7 v))))"
      using ih by (simp only: s7)
    also have "\<dots> = (x OR push_bit (7 * i) v, int i + int (length (putUvarint v)))"
      by (simp only: join putUvarint_big [OF True]) simp
    finally show ?thesis .
  qed
qed

lemma uvarint_put: "uvarint (putUvarint v @ rest) = (v, int (length (putUvarint v)))"
proof -
  have "unat v < 2 ^ 64" using unsigned_less [of v, where 'a = nat] by simp
  then show ?thesis
    using uvarint_loop_put [of 0 v rest 0] by (simp add: uvarint_def)
qed

lemma putUvarint_nonempty: "0 < length (putUvarint v)"
  by (subst putUvarint.simps) simp

lemma wireChopUint_put: "wireChopUint (putUvarint v @ rest) = Some (v, rest)"
  using putUvarint_nonempty [of v] by (simp add: wireChopUint_def uvarint_put)

lemma wireChopSlice_append: "length xs = n \<Longrightarrow> wireChopSlice n (xs @ rest) = Some (xs, rest)"
  by (simp add: wireChopSlice_def)

lemma length_Rep_signature [simp]: "length (Rep_signature s) = signatureSize"
  using Rep_signature [of s] by simp

lemma length_Rep_Digest [simp]: "length (Rep_Digest d) = digestSize"
  using Rep_Digest [of d] by simp

lemma routerSigReq_encode_eq: "routerSigReq_encode req out = Inr (out @ sigReq_bytes req)"
  by (simp add: routerSigReq_encode_def routerSigReq_size_def wireAppendUint_def wireSizeUint_def
        sigReq_bytes_def Let_def)

lemma routerSigReq_chop_eq: "routerSigReq_chop (sigReq_bytes req @ rest) = Inr (req, rest)"
  by (simp add: routerSigReq_chop_def sigReq_bytes_def wireChopUint_put)

lemma routerSigRes_encode_eq: "routerSigRes_encode res out = Inr (out @ sigRes_bytes res)"
  by (simp add: routerSigRes_encode_def routerSigRes_size_def routerSigReq_encode_eq
        wireAppendUint_def wireSizeUint_def sigRes_bytes_def sigReq_bytes_def
        routerSigReq_size_def Let_def)

lemma routerSigRes_chop_eq: "routerSigRes_chop (sigRes_bytes res @ rest) = Inr (res, rest)"
  by (simp add: routerSigRes_chop_def sigRes_bytes_def routerSigReq_chop_eq wireChopUint_put
        wireChopSlice_append Rep_signature_inverse)

lemma routerAnnounce_encode_eq: "routerAnnounce_encode ann out = Inr (out @ announce_bytes ann)"
  by (simp add: routerAnnounce_encode_def routerAnnounce_size_def routerSigRes_encode_eq
        announce_bytes_def sigRes_bytes_def sigReq_bytes_def routerSigRes_size_def
        routerSigReq_size_def wireSizeUint_def Let_def)

lemma routerAnnounce_decode_eq:
  "routerAnnounce_decode (announce_bytes ann @ rest) = (if rest = [] then Inr ann else Inl ErrDecode)"
  by (simp add: routerAnnounce_decode_def announce_bytes_def wireChopSlice_append
        routerSigRes_chop_eq Rep_publicKey_inverse Rep_signature_inverse)

lemma routerMerkleReq_encode_eq: "routerMerkleReq_encode req out = Inr (out @ merkleReq_bytes req)"
  by (simp add: routerMerkleReq_encode_def routerMerkleReq_size_def wireAppendUint_def
        wireSizeUint_def merkleReq_bytes_def Let_def)

lemma routerMerkleReq_chop_eq: "routerMerkleReq_chop (merkleReq_bytes req @ rest) = Inr (req, rest)"
  by (simp add: routerMerkleReq_chop_def merkleReq_bytes_def wireChopUint_put
        wireChopSlice_append Rep_publicKey_inverse)

lemma routerMerkleRes_encode_eq: "routerMerkleRes_encode res out = Inr (out @ merkleRes_bytes res)"
  by (simp add: routerMerkleRes_encode_def routerMerkleRes_size_def routerMerkleReq_encode_eq
        merkleRes_bytes_def merkleReq_bytes_def routerMerkleReq_size_def wireSizeUint_def Let_def)

lemma routerMerkleRes_chop_eq: "routerMerkleRes_chop (merkleRes_bytes res @ rest) = Inr (res, rest)"
  by (simp add: routerMerkleRes_chop_def merkleRes_bytes_def routerMerkleReq_chop_eq
        wireChopSlice_append Rep_Digest_inverse)

text \<open>
  C8. For every \<open>routerSigReq\<close>, \<open>routerSigRes\<close>, \<open>routerAnnounce\<close>, \<open>routerMerkleReq\<close>
  and \<open>routerMerkleRes\<close>, \<open>encode\<close> returns bytes without panicking, \<open>decode\<close> of these
  bytes returns the value, and \<open>decode\<close> of these bytes followed by any further bytes
  returns \<open>ErrDecode\<close>.
\<close>

theorem codec_roundtrip:
  "(\<exists>bs. routerSigReq_encode req [] = Inr bs \<and> routerSigReq_decode bs = Inr req \<and>
         (\<forall>t. t \<noteq> [] \<longrightarrow> routerSigReq_decode (bs @ t) = Inl ErrDecode)) \<and>
   (\<exists>bs. routerSigRes_encode res [] = Inr bs \<and> routerSigRes_decode bs = Inr res \<and>
         (\<forall>t. t \<noteq> [] \<longrightarrow> routerSigRes_decode (bs @ t) = Inl ErrDecode)) \<and>
   (\<exists>bs. routerAnnounce_encode ann [] = Inr bs \<and> routerAnnounce_decode bs = Inr ann \<and>
         (\<forall>t. t \<noteq> [] \<longrightarrow> routerAnnounce_decode (bs @ t) = Inl ErrDecode)) \<and>
   (\<exists>bs. routerMerkleReq_encode mreq [] = Inr bs \<and> routerMerkleReq_decode bs = Inr mreq \<and>
         (\<forall>t. t \<noteq> [] \<longrightarrow> routerMerkleReq_decode (bs @ t) = Inl ErrDecode)) \<and>
   (\<exists>bs. routerMerkleRes_encode mres [] = Inr bs \<and> routerMerkleRes_decode bs = Inr mres \<and>
         (\<forall>t. t \<noteq> [] \<longrightarrow> routerMerkleRes_decode (bs @ t) = Inl ErrDecode))"
proof (intro conjI)
  show "\<exists>bs. routerSigReq_encode req [] = Inr bs \<and> routerSigReq_decode bs = Inr req \<and>
         (\<forall>t. t \<noteq> [] \<longrightarrow> routerSigReq_decode (bs @ t) = Inl ErrDecode)"
    using routerSigReq_chop_eq [of req "[]"] routerSigReq_chop_eq [of req]
    by (simp add: routerSigReq_encode_eq routerSigReq_decode_def)
  show "\<exists>bs. routerSigRes_encode res [] = Inr bs \<and> routerSigRes_decode bs = Inr res \<and>
         (\<forall>t. t \<noteq> [] \<longrightarrow> routerSigRes_decode (bs @ t) = Inl ErrDecode)"
    using routerSigRes_chop_eq [of res "[]"] routerSigRes_chop_eq [of res]
    by (simp add: routerSigRes_encode_eq routerSigRes_decode_def)
  show "\<exists>bs. routerAnnounce_encode ann [] = Inr bs \<and> routerAnnounce_decode bs = Inr ann \<and>
         (\<forall>t. t \<noteq> [] \<longrightarrow> routerAnnounce_decode (bs @ t) = Inl ErrDecode)"
    using routerAnnounce_decode_eq [of ann "[]"] routerAnnounce_decode_eq [of ann]
    by (simp add: routerAnnounce_encode_eq)
  show "\<exists>bs. routerMerkleReq_encode mreq [] = Inr bs \<and> routerMerkleReq_decode bs = Inr mreq \<and>
         (\<forall>t. t \<noteq> [] \<longrightarrow> routerMerkleReq_decode (bs @ t) = Inl ErrDecode)"
    using routerMerkleReq_chop_eq [of mreq "[]"] routerMerkleReq_chop_eq [of mreq]
    by (simp add: routerMerkleReq_encode_eq routerMerkleReq_decode_def)
  show "\<exists>bs. routerMerkleRes_encode mres [] = Inr bs \<and> routerMerkleRes_decode bs = Inr mres \<and>
         (\<forall>t. t \<noteq> [] \<longrightarrow> routerMerkleRes_decode (bs @ t) = Inl ErrDecode)"
    using routerMerkleRes_chop_eq [of mres "[]"] routerMerkleRes_chop_eq [of mres]
    by (simp add: routerMerkleRes_encode_eq routerMerkleRes_decode_def)
qed

theorem codec_roundtrip_witness:
  "[0 :: byte] \<noteq> [] \<and>
   routerSigReq_decode (projr (routerSigReq_encode \<lparr>seq = 300, nonce = 1\<rparr> [])) =
     Inr \<lparr>seq = 300, nonce = 1\<rparr> \<and>
   routerSigReq_decode (projr (routerSigReq_encode \<lparr>seq = 300, nonce = 1\<rparr> []) @ [0]) =
     Inl ErrDecode \<and>
   routerSigRes_decode (projr (routerSigRes_encode (ex_sigRes 300 1 70000) [])) =
     Inr (ex_sigRes 300 1 70000) \<and>
   routerSigRes_decode (projr (routerSigRes_encode (ex_sigRes 300 1 70000) []) @ [0]) =
     Inl ErrDecode \<and>
   routerAnnounce_decode (projr (routerAnnounce_encode (ex_ann 2 3 7 9 1) [])) =
     Inr (ex_ann 2 3 7 9 1) \<and>
   routerAnnounce_decode (projr (routerAnnounce_encode (ex_ann 2 3 7 9 1) []) @ [0]) =
     Inl ErrDecode \<and>
   routerMerkleReq_decode (projr (routerMerkleReq_encode ex_merkleReq [])) = Inr ex_merkleReq \<and>
   routerMerkleReq_decode (projr (routerMerkleReq_encode ex_merkleReq []) @ [0]) =
     Inl ErrDecode \<and>
   routerMerkleRes_decode (projr (routerMerkleRes_encode ex_merkleRes [])) = Inr ex_merkleRes \<and>
   routerMerkleRes_decode (projr (routerMerkleRes_encode ex_merkleRes []) @ [0]) =
     Inl ErrDecode"
proof -
  have ne: "[0 :: byte] \<noteq> []" by simp
  note cr = codec_roundtrip [of "\<lparr>seq = 300, nonce = 1\<rparr>" "ex_sigRes 300 1 70000"
      "ex_ann 2 3 7 9 1" ex_merkleReq ex_merkleRes]
  from cr [THEN conjunct1] obtain b1 where
    e1: "routerSigReq_encode \<lparr>seq = 300, nonce = 1\<rparr> [] = Inr b1"
      "routerSigReq_decode b1 = Inr \<lparr>seq = 300, nonce = 1\<rparr>"
      "\<forall>t. t \<noteq> [] \<longrightarrow> routerSigReq_decode (b1 @ t) = Inl ErrDecode"
    by (elim exE conjE)
  from cr [THEN conjunct2, THEN conjunct1] obtain b2 where
    e2: "routerSigRes_encode (ex_sigRes 300 1 70000) [] = Inr b2"
      "routerSigRes_decode b2 = Inr (ex_sigRes 300 1 70000)"
      "\<forall>t. t \<noteq> [] \<longrightarrow> routerSigRes_decode (b2 @ t) = Inl ErrDecode"
    by (elim exE conjE)
  from cr [THEN conjunct2, THEN conjunct2, THEN conjunct1] obtain b3 where
    e3: "routerAnnounce_encode (ex_ann 2 3 7 9 1) [] = Inr b3"
      "routerAnnounce_decode b3 = Inr (ex_ann 2 3 7 9 1)"
      "\<forall>t. t \<noteq> [] \<longrightarrow> routerAnnounce_decode (b3 @ t) = Inl ErrDecode"
    by (elim exE conjE)
  from cr [THEN conjunct2, THEN conjunct2, THEN conjunct2, THEN conjunct1] obtain b4 where
    e4: "routerMerkleReq_encode ex_merkleReq [] = Inr b4"
      "routerMerkleReq_decode b4 = Inr ex_merkleReq"
      "\<forall>t. t \<noteq> [] \<longrightarrow> routerMerkleReq_decode (b4 @ t) = Inl ErrDecode"
    by (elim exE conjE)
  from cr [THEN conjunct2, THEN conjunct2, THEN conjunct2, THEN conjunct2] obtain b5 where
    e5: "routerMerkleRes_encode ex_merkleRes [] = Inr b5"
      "routerMerkleRes_decode b5 = Inr ex_merkleRes"
      "\<forall>t. t \<noteq> [] \<longrightarrow> routerMerkleRes_decode (b5 @ t) = Inl ErrDecode"
    by (elim exE conjE)
  have t1: "routerSigReq_decode (b1 @ [0]) = Inl ErrDecode" using e1(3) ne by blast
  have t2: "routerSigRes_decode (b2 @ [0]) = Inl ErrDecode" using e2(3) ne by blast
  have t3: "routerAnnounce_decode (b3 @ [0]) = Inl ErrDecode" using e3(3) ne by blast
  have t4: "routerMerkleReq_decode (b4 @ [0]) = Inl ErrDecode" using e4(3) ne by blast
  have t5: "routerMerkleRes_decode (b5 @ [0]) = Inl ErrDecode" using e5(3) ne by blast
  show ?thesis
    by (simp only: e1(1,2) e2(1,2) e3(1,2) e4(1,2) e5(1,2) t1 t2 t3 t4 t5 sum.sel) simp
qed

subsection \<open>The parent selection\<close>

text \<open>
  \<open>_fix\<close> leaves the infos and timers of all keys but the node's own as they are, and
  does not remove the node's own info.
\<close>

lemma fix_rel_same: "store_of s' = store_of s \<Longrightarrow> fix_rel s s'"
  by (simp add: store_of_def fix_rel_def remote_timer_def)

lemma fix_rel_refl: "fix_rel s s"
  by (simp add: fix_rel_def)

lemma fix_rel_trans:
  assumes "fix_rel a b" and "fix_rel b c"
  shows "fix_rel a c"
  using assms unfolding fix_rel_def by auto

lemma peer_send_store [simp]: "store_of (peer_send p m r) = store_of r"
  by (simp add: store_of_def peer_send_def)

lemma fold_peer_send_store [simp]:
  "store_of (fold (\<lambda>p. peer_send p (f p)) ps r) = store_of r"
  by (induction ps arbitrary: r) simp_all

lemma sendReqs_loop_store: "store_of (sendReqs_loop e i ps r) = store_of r"
proof (induction ps arbitrary: i r)
  case Nil
  show ?case by simp
next
  case (Cons a ps)
  obtain pk ls where a: "a = (pk, ls)" by (cases a)
  show ?case
    unfolding a by (simp add: Let_def Cons.IH) (simp add: store_of_def)
qed

lemma router_sendReqs_store: "store_of (router_sendReqs e i r) = store_of r"
  by (simp add: router_sendReqs_def sendReqs_loop_store) (simp add: store_of_def router_clearReqs_def)

lemma fold_peer_send2_store [simp]:
  "store_of (fold (\<lambda>p s. peer_send p m1 (peer_send p m2 s)) ps r) = store_of r"
  by (induction ps arbitrary: r) simp_all

lemma fixMerks_loop_store:
  "fixMerks_loop e merk ks r = Inr r' \<Longrightarrow> store_of r' = store_of r"
proof (induction ks arbitrary: r)
  case Nil
  then show ?case by simp
next
  case (Cons k ks)
  show ?case
  proof (cases "fmlookup (merks r) k")
    case None
    with Cons show ?thesis by simp
  next
    case (Some orig)
    show ?thesis
    proof (cases "Digest (Root merk) = Digest (Root orig)")
      case True
      with Cons Some show ?thesis by (simp split: if_splits)
    next
      case False
      with Cons.prems Some have nb: "\<not> bloomMulticastEnabled e" by (simp split: if_splits)
      from Cons.prems Some False nb
      have "store_of r' = store_of (r\<lparr>merks := fmupd k merk (merks r)\<rparr>)"
        by (simp add: Let_def) (drule Cons.IH, simp)
      then show ?thesis by (simp add: store_of_def)
    qed
  qed
qed

lemma router_fixMerks_store:
  "router_fixMerks e r = Inr r' \<Longrightarrow> store_of r' = store_of r"
  by (auto simp: router_fixMerks_def dest: fixMerks_loop_store split: sum.splits)

lemma router_update_self_rel:
  assumes acc: "router_update rnd r ann = (True, r1)"
    and self: "ann_key ann = crypto_publicKey (core r)"
  shows "fix_rel r r1"
  using acc self
  by (auto simp: fix_rel_def remote_timer_def router_update_def router_resetCache_def
        time_AfterFunc_def timer_Stop_def Let_def split: if_splits option.splits)

lemma timer_Stop_fix_rel: "fix_rel r (timer_Stop (fixTimer r) r)"
  by (auto simp: fix_rel_def remote_timer_def timer_Stop_def split: option.splits)

lemma AfterFunc_fix_rel:
  "time_AfterFunc d f r = (t, r1) \<Longrightarrow> fix_rel r (r1\<lparr>fixTimer := t, doRoot1 := b\<rparr>)"
  by (auto simp: fix_rel_def remote_timer_def time_AfterFunc_def)

lemma useResponse_rel:
  assumes "router_useResponse e r pk res = Inr (True, r1)"
  shows "fix_rel r r1"
proof -
  obtain ann where "router_update (env_mrand e) r ann = (True, r1)"
    and "ann_key ann = crypto_publicKey (core r)"
    using assms
    by (auto simp: router_useResponse_def routerInfo_getAnnounce_def Let_def split: sum.splits)
  then show ?thesis by (rule router_update_self_rel)
qed

lemma becomeRoot_rel:
  assumes "router_becomeRoot e r = Inr (True, r1)"
  shows "fix_rel r r1"
proof -
  obtain ann where "router_update (env_mrand e) r ann = (True, r1)"
    and "ann_key ann = crypto_publicKey (core r)"
    using assms
    by (auto simp: router_becomeRoot_def Let_def split: sum.splits if_splits)
  then show ?thesis by (rule router_update_self_rel)
qed

lemma fix_switch_rel:
  assumes sw: "fix_switch e r bR bP = Inr r4"
  shows "fix_rel r r4"
proof (cases "refresh r \<or> doRoot1 r \<or> doRoot2 r \<or> self_parent r \<noteq> bP")
  case False
  with sw have "r4 = r" by (simp add: fix_switch_def)
  then show ?thesis by (simp add: fix_rel_refl)
next
  case c: True
  show ?thesis
  proof (cases "if bR \<noteq> crypto_publicKey (core r) then fmlookup (responses r) bP else None")
    case (Some res)
    from sw c Some obtain r1 where u: "router_useResponse e r bP res = Inr (True, r1)"
      and r4: "r4 = router_sendReqs e 0
         ((timer_Stop (fixTimer r1) r1)\<lparr>refresh := False, doRoot1 := False, doRoot2 := False\<rparr>)"
      by (auto simp: fix_switch_def Let_def split: sum.splits if_splits)
    have a: "fix_rel r r1" using u by (rule useResponse_rel)
    have b: "fix_rel r1 (timer_Stop (fixTimer r1) r1)" by (rule timer_Stop_fix_rel)
    have "store_of r4 = store_of (timer_Stop (fixTimer r1) r1)"
      unfolding r4 by (simp add: router_sendReqs_store) (simp add: store_of_def)
    then have "fix_rel (timer_Stop (fixTimer r1) r1) r4" by (rule fix_rel_same)
    with a b show ?thesis by (blast intro: fix_rel_trans)
  next
    case None
    show ?thesis
    proof (cases "doRoot2 r")
      case True
      from sw c None True obtain r1 where u: "router_becomeRoot e r = Inr (True, r1)"
        and r4: "r4 = router_sendReqs e 1
           (timer_Stop (fixTimer r1) (r1\<lparr>refresh := False, doRoot1 := False, doRoot2 := False\<rparr>))"
        by (auto simp: fix_switch_def Let_def split: sum.splits if_splits)
      have a: "fix_rel r r1" using u by (rule becomeRoot_rel)
      have b: "fix_rel r1 (timer_Stop (fixTimer r1) r1)" by (rule timer_Stop_fix_rel)
      have "store_of r4 = store_of (timer_Stop (fixTimer r1) r1)"
        unfolding r4
        by (simp add: router_sendReqs_store)
           (simp add: store_of_def timer_Stop_def split: option.splits)
      then have "fix_rel (timer_Stop (fixTimer r1) r1) r4" by (rule fix_rel_same)
      with a b show ?thesis by (blast intro: fix_rel_trans)
    next
      case False
      show ?thesis
      proof (cases "doRoot1 r")
        case True
        with sw c None False have "r4 = r" by (simp add: fix_switch_def)
        then show ?thesis by (simp add: fix_rel_refl)
      next
        case d1: False
        obtain t r1 where af: "time_AfterFunc 1000000000 FixFunc r = (t, r1)"
          by (cases "time_AfterFunc 1000000000 FixFunc r")
        with sw c None False d1 have "r4 = r1\<lparr>fixTimer := t, doRoot1 := True\<rparr>"
          by (simp add: fix_switch_def)
        then show ?thesis using AfterFunc_fix_rel [OF af] by simp
      qed
    qed
  qed
qed

lemma router_fix_rel:
  assumes "router_fix e s = Inr s'"
  shows "fix_rel s s'"
proof -
  obtain bR bP where b: "fix_best e s = (bR, bP)" by (cases "fix_best e s")
  from assms b obtain r1 where sw: "fix_switch e s bR bP = Inr r1"
    and fm: "router_fixMerks e r1 = Inr s'"
    by (auto simp: router_fix_def split: sum.splits)
  have "fix_rel s r1" using sw by (rule fix_switch_rel)
  moreover have "fix_rel r1 s'"
    using router_fixMerks_store [OF fm] by (rule fix_rel_same)
  ultimately show ?thesis by (rule fix_rel_trans)
qed

text \<open>
  A run of \<open>_fix\<close> with nothing to do: no flag set, no peers, no responses, the node
  its own parent, no tree of a peer to bring up to date.
\<close>

lemma fixMerks_tree_fold:
  "\<exists>merk'. fold (fixMerks_tree e r) ks (Inr merk) = Inr merk'"
proof (induction ks arbitrary: merk)
  case Nil
  show ?case by simp
next
  case (Cons k ks)
  have "\<exists>m1. fixMerks_tree e r k (Inr merk) = Inr m1"
    by (cases "fmlookup (infos r) k") (simp_all add: fixMerks_tree_def routerAnnounce_encode_eq)
  then obtain m1 where "fixMerks_tree e r k (Inr merk) = Inr m1" ..
  then show ?case using Cons.IH [of m1] by simp
qed

lemma fixMerks_loop_no_merks: "merks r = fmempty \<Longrightarrow> fixMerks_loop e merk ks r = Inr r"
  by (induction ks) simp_all

lemma router_fixMerks_idle:
  assumes "\<not> bloomMulticastEnabled e" and "merks r = fmempty"
  shows "router_fixMerks e r = Inr r"
proof -
  obtain merk where
    "fold (fixMerks_tree e r) (range_infos e) (Inr \<lparr>Root = Node zeroDigest None None\<rparr>) = Inr merk"
    using fixMerks_tree_fold by blast
  then show ?thesis
    using assms by (simp add: router_fixMerks_def fixMerks_loop_no_merks)
qed

lemma router_fix_idle:
  assumes "\<not> refresh r" and "\<not> doRoot1 r" and "\<not> doRoot2 r" and "peers r = []"
    and "range_responses e = []" and "self_parent r = crypto_publicKey (core r)"
    and "\<not> bloomMulticastEnabled e" and "merks r = fmempty"
  shows "router_fix e r = Inr r"
  using assms
  by (simp add: router_fix_def fix_best_def fix_switch_def router_fixMerks_idle Let_def)

subsection \<open>The announcement handler\<close>

lemma worst_fold_inv:
  "fold (worst_step self) ks (w0, False) = (w, found) \<Longrightarrow>
     (found \<longleftrightarrow> (\<exists>k \<in> set ks. k \<noteq> self)) \<and>
     (found \<longrightarrow> w \<in> set ks \<and> w \<noteq> self \<and>
        (\<forall>k \<in> set ks. k \<noteq> self \<longrightarrow> \<not> publicKey_less w k)) \<and>
     (\<not> found \<longrightarrow> w = w0)"
proof (induction ks arbitrary: w found rule: rev_induct)
  case Nil
  then show ?case by simp
next
  case (snoc k ks)
  obtain w1 f1 where acc: "fold (worst_step self) ks (w0, False) = (w1, f1)"
    by (cases "fold (worst_step self) ks (w0, False)") auto
  note ih = snoc.IH [OF acc]
  have step: "worst_step self k (w1, f1) = (w, found)"
    using snoc.prems acc by simp
  show ?case
  proof (cases "k = self")
    case True
    then have "w = w1" "found = f1" using step by (simp_all add: worst_step_def)
    with ih True show ?thesis by auto
  next
    case notself: False
    show ?thesis
    proof (cases "\<not> f1 \<or> publicKey_less w1 k")
      case True
      then have wk: "w = k" "found" using step notself by (auto simp: worst_step_def)
      have "\<forall>k' \<in> set ks. k' \<noteq> self \<longrightarrow> \<not> publicKey_less k k'"
      proof (intro ballI impI)
        fix k' assume k': "k' \<in> set ks" "k' \<noteq> self"
        then have f1: "f1" using ih by auto
        then have lt: "publicKey_less w1 k" using True by simp
        have "\<not> publicKey_less w1 k'" using ih f1 k' by auto
        then show "\<not> publicKey_less k k'"
          using publicKey_less_trans [OF lt] by blast
      qed
      with wk notself show ?thesis by auto
    next
      case False
      then have "w = w1" "found = f1" "f1" "\<not> publicKey_less w1 k"
        using step notself by (auto simp: worst_step_def)
      with ih notself show ?thesis by auto
    qed
  qed
qed

lemma router_update_accept:
  assumes "router_update rnd r ann = (True, r1)"
  shows "infos r1 = fmupd (ann_key ann)
           \<lparr>info_parent = ann_parent ann, info_sigRes = ann_sigRes ann,
            info_sig = ann_sig ann, info_expired = False\<rparr> (infos r)"
    and "timers r1 = fmupd (ann_key ann) (nextTimer r) (timers r)"
    and "core r1 = core r" and "now r1 = now r" and "outbox r1 = outbox r"
    and "nextTimer r1 = Suc (nextTimer r)" and "fixTimer r1 = fixTimer r"
  using assms
  by (auto simp: router_update_def router_resetCache_def time_AfterFunc_def timer_Stop_def Let_def
        split: if_splits option.splits)

lemma router_update_reject: "router_update rnd r ann = (False, r1) \<Longrightarrow> r1 = r"
  by (auto simp: router_update_def Let_def case_prod_beta split: if_splits)

lemma router_update_unknown_accepts:
  "fmlookup (infos r) (ann_key ann) = None \<Longrightarrow> fst (router_update rnd r ann)"
  by (simp add: router_update_def Let_def case_prod_beta)

text \<open>The three ways \<open>_handleAnnounce\<close> ends with a state.\<close>

lemma handleAnnounce_cases:
  assumes res: "router_handleAnnounce e rnd ks r sender ann = Inr r'"
  obtains
    (dropped) "r' = r"
  | (stored) r1 s where
      "int (card (fmdom' (infos r))) < routerMaxInfos (core r) \<or>
       fmlookup (infos r) (ann_key ann) \<noteq> None"
      "router_update rnd r ann = (True, r1)"
      "s = (if ann_key ann = crypto_publicKey (core r) then r1\<lparr>refresh := True\<rparr> else r1)"
      "router_fix e s = Inr r'"
  | (evicted) r1 w t s where
      "\<not> int (card (fmdom' (infos r))) < routerMaxInfos (core r)"
      "fmlookup (infos r) (ann_key ann) = None"
      "fold (worst_step (crypto_publicKey (core r))) ks (zeroKey, False) = (w, True)"
      "publicKey_less (ann_key ann) w"
      "router_update rnd r ann = (True, r1)"
      "fmlookup (timers r1) w = Some t"
      "infos s = fmdrop w (infos r1)" "timers s = fmdrop w (timers r1)" "core s = core r"
      "router_fix e s = Inr r'"
proof (cases "int (card (fmdom' (infos r))) < routerMaxInfos (core r) \<or>
       fmlookup (infos r) (ann_key ann) \<noteq> None")
  case True
  obtain b r1 where u: "router_update rnd r ann = (b, r1)"
    by (cases "router_update rnd r ann") auto
  show ?thesis
  proof (cases b)
    case False
    with u have "r1 = r" by (simp add: router_update_reject)
    with res True u False have "r' = r"
      by (auto simp: router_handleAnnounce_def Let_def split: if_splits)
    then show ?thesis by (rule dropped)
  next
    case b: True
    have c: "core r1 = core r" using u b by (simp add: router_update_accept)
    have "router_fix e (if ann_key ann = crypto_publicKey (core r) then r1\<lparr>refresh := True\<rparr> else r1) = Inr r'"
      using res True u b c
      by (auto simp: router_handleAnnounce_def Let_def split: if_splits)
    then show ?thesis using True u b by (intro stored [of r1]) auto
  qed
next
  case False
  obtain w found where f: "fold (worst_step (crypto_publicKey (core r))) ks (zeroKey, False) = (w, found)"
    by (cases "fold (worst_step (crypto_publicKey (core r))) ks (zeroKey, False)") auto
  show ?thesis
  proof (cases "publicKey_less (ann_key ann) w")
    case nl: False
    with res False f have "r' = r"
      by (simp add: router_handleAnnounce_def Let_def)
    then show ?thesis by (rule dropped)
  next
    case lt: True
    have found: "found"
    proof (rule ccontr)
      assume "\<not> found"
      then have "w = zeroKey" using worst_fold_inv [OF f] by simp
      with lt show False by simp
    qed
    have "fst (router_update rnd r ann)"
      using False by (simp add: router_update_unknown_accepts)
    then obtain r1 where u: "router_update rnd r ann = (True, r1)"
      by (cases "router_update rnd r ann") auto
    have c: "core r1 = core r" using u by (simp add: router_update_accept)
    show ?thesis
    proof (cases "fmlookup (timers r1) w")
      case None
      with res False f lt found u show ?thesis
        by (simp add: router_handleAnnounce_def Let_def)
    next
      case (Some t)
      define r2 where "r2 = timer_Stop t r1"
      define r3 where "r3 = router_resetCache (r2\<lparr>infos := fmdrop w (infos r2), timers := fmdrop w (timers r2)\<rparr>)"
      define s where "s = (if ann_key ann = crypto_publicKey (core r3) then r3\<lparr>refresh := True\<rparr> else r3)"
      have r2: "infos r2 = infos r1" "timers r2 = timers r1" "core r2 = core r1"
        by (auto simp: r2_def timer_Stop_def split: option.splits)
      have s: "infos s = fmdrop w (infos r1)" "timers s = fmdrop w (timers r1)" "core s = core r"
        using r2 c by (auto simp: s_def r3_def router_resetCache_def)
      have "router_fix e s = Inr r'"
        using res False f lt found u Some
        by (auto simp: router_handleAnnounce_def Let_def s_def r3_def r2_def split: if_splits)
      then show ?thesis
        using False f lt found u Some s by (intro evicted [of w r1 t s]) auto
    qed
  qed
qed

lemma router_fix_dom:
  assumes "router_fix e s = Inr r'"
    and "fmlookup (infos s) (crypto_publicKey (core s)) \<noteq> None"
  shows "fmdom' (infos r') \<subseteq> fmdom' (infos s)"
proof
  fix k assume k: "k \<in> fmdom' (infos r')"
  show "k \<in> fmdom' (infos s)"
  proof (cases "k = crypto_publicKey (core s)")
    case True
    with assms(2) show ?thesis by (auto simp: fmlookup_dom'_iff)
  next
    case False
    then have "fmlookup (infos r') k = fmlookup (infos s) k"
      using router_fix_rel [OF assms(1)] unfolding fix_rel_def by blast
    with k show ?thesis by (simp add: fmlookup_dom'_iff)
  qed
qed

lemma router_fix_other:
  assumes "router_fix e s = Inr r'" and "k \<noteq> crypto_publicKey (core s)"
  shows "fmlookup (infos r') k = fmlookup (infos s) k"
    and "fmlookup (timers r') k = fmlookup (timers s) k"
  using router_fix_rel [OF assms(1)] assms(2) unfolding fix_rel_def by blast+

lemma router_fix_timer:
  assumes "router_fix e s = Inr r'" and "remote_timer s t"
  shows "theap r' t = theap s t" and "remote_timer r' t"
  using router_fix_rel [OF assms(1)] assms(2) unfolding fix_rel_def by blast+

lemma router_fix_core:
  assumes "router_fix e s = Inr r'"
  shows "core r' = core s" and "now r' = now s"
  using router_fix_rel [OF assms(1)] unfolding fix_rel_def by blast+

lemma router_fix_self:
  assumes "router_fix e s = Inr r'"
    and "fmlookup (infos s) (crypto_publicKey (core s)) \<noteq> None"
  shows "fmlookup (infos r') (crypto_publicKey (core s)) \<noteq> None"
  using router_fix_rel [OF assms(1)] assms(2) unfolding fix_rel_def by blast

lemma finite_fmdom' [simp]: "finite (fmdom' m)"
  by (simp add: fmdom'_alt_def)

text \<open>
  C3. Let the node's own info be stored and \<open>ks\<close> list the keys of \<open>infos\<close>.
  Whenever \<open>_handleAnnounce\<close> returns, the node's own info is still stored, and a store
  that held at most \<open>routerMaxInfos\<close> infos still does. If the store was full and the announcement's key
  was unknown and is stored afterwards, then there is a highest-keyed entry \<open>w\<close> other than
  the node's own, the announcement's key is strictly less than \<open>w\<close>, and \<open>w\<close> has
  neither info nor timer afterwards.
\<close>

theorem handleAnnounce_capacity:
  assumes ks: "set ks = fmdom' (infos r)"
    and self: "fmlookup (infos r) (crypto_publicKey (core r)) \<noteq> None"
    and res: "router_handleAnnounce e rnd ks r sender ann = Inr r'"
  shows "core r' = core r \<and>
         fmlookup (infos r') (crypto_publicKey (core r)) \<noteq> None \<and>
         (int (card (fmdom' (infos r))) \<le> routerMaxInfos (core r) \<longrightarrow>
            int (card (fmdom' (infos r'))) \<le> routerMaxInfos (core r)) \<and>
         (routerMaxInfos (core r) \<le> int (card (fmdom' (infos r))) \<and>
          fmlookup (infos r) (ann_key ann) = None \<and>
          fmlookup (infos r') (ann_key ann) \<noteq> None \<longrightarrow>
            (\<exists>w. w \<noteq> crypto_publicKey (core r) \<and> fmlookup (infos r) w \<noteq> None \<and>
                 (\<forall>k. k \<noteq> crypto_publicKey (core r) \<and> fmlookup (infos r) k \<noteq> None
                    \<longrightarrow> \<not> publicKey_less w k) \<and>
                 publicKey_less (ann_key ann) w \<and>
                 fmlookup (infos r') w = None \<and> fmlookup (timers r') w = None \<and>
                 card (fmdom' (infos r')) \<le> card (fmdom' (infos r))))"
  using res
proof (cases rule: handleAnnounce_cases)
  case dropped
  then show ?thesis using self by auto
next
  case (stored r1 s)
  let ?info = "\<lparr>info_parent = ann_parent ann, info_sigRes = ann_sigRes ann,
                info_sig = ann_sig ann, info_expired = False\<rparr>"
  have infs: "infos s = fmupd (ann_key ann) ?info (infos r)" and cs: "core s = core r"
    using stored(2,3) by (auto simp: router_update_accept)
  have selfs: "fmlookup (infos s) (crypto_publicKey (core s)) \<noteq> None"
    using self by (simp add: infs cs)
  have keep: "core r' = core r" "fmlookup (infos r') (crypto_publicKey (core r)) \<noteq> None"
    using router_fix_core(1) [OF stored(4)] router_fix_self [OF stored(4) selfs] cs by simp_all
  from selfs have sub: "fmdom' (infos r') \<subseteq> insert (ann_key ann) (fmdom' (infos r))"
    using router_fix_dom [OF stored(4)] by (simp add: infs)
  have le: "card (fmdom' (infos r')) \<le> card (insert (ann_key ann) (fmdom' (infos r)))"
    by (rule card_mono [OF _ sub]) simp
  have c1: "int (card (fmdom' (infos r))) \<le> routerMaxInfos (core r) \<Longrightarrow>
            int (card (fmdom' (infos r'))) \<le> routerMaxInfos (core r)"
  proof -
    assume b: "int (card (fmdom' (infos r))) \<le> routerMaxInfos (core r)"
    from stored(1) show ?thesis
    proof
      assume "int (card (fmdom' (infos r))) < routerMaxInfos (core r)"
      moreover have "card (insert (ann_key ann) (fmdom' (infos r))) \<le> Suc (card (fmdom' (infos r)))"
        by (simp add: card_insert_if)
      ultimately show ?thesis using le by linarith
    next
      assume "fmlookup (infos r) (ann_key ann) \<noteq> None"
      then have "insert (ann_key ann) (fmdom' (infos r)) = fmdom' (infos r)"
        by (auto simp: fmlookup_dom'_iff)
      with le b show ?thesis by simp
    qed
  qed
  show ?thesis using keep c1 stored(1) by auto
next
  case (evicted r1 w t s)
  let ?self = "crypto_publicKey (core r)"
  let ?info = "\<lparr>info_parent = ann_parent ann, info_sigRes = ann_sigRes ann,
                info_sig = ann_sig ann, info_expired = False\<rparr>"
  have i1: "infos r1 = fmupd (ann_key ann) ?info (infos r)"
    and t1: "timers r1 = fmupd (ann_key ann) (nextTimer r) (timers r)"
    using evicted(5) by (auto simp: router_update_accept)
  have w: "w \<in> fmdom' (infos r)" "w \<noteq> ?self"
    "\<forall>k \<in> fmdom' (infos r). k \<noteq> ?self \<longrightarrow> \<not> publicKey_less w k"
    using worst_fold_inv [OF evicted(3)] ks by auto
  have wk: "w \<noteq> ann_key ann"
    using w(1) evicted(2) by (auto simp: fmlookup_dom'_iff)
  have knew: "ann_key ann \<notin> fmdom' (infos r)"
    using evicted(2) by (auto simp: fmlookup_dom'_iff)
  have doms: "fmdom' (infos s) = insert (ann_key ann) (fmdom' (infos r)) - {w}"
    by (simp add: evicted(7) i1)
  have cards: "card (fmdom' (infos s)) = card (fmdom' (infos r))"
    unfolding doms using w(1) wk knew by (simp add: card_Diff_singleton_if)
  have selfs: "fmlookup (infos s) (crypto_publicKey (core s)) \<noteq> None"
    using self w(2) by (simp add: evicted(7,9) i1)
  have keep: "core r' = core r" "fmlookup (infos r') (crypto_publicKey (core r)) \<noteq> None"
    using router_fix_core(1) [OF evicted(10)] router_fix_self [OF evicted(10) selfs] evicted(9)
    by simp_all
  have le: "card (fmdom' (infos r')) \<le> card (fmdom' (infos r))"
    using card_mono [OF _ router_fix_dom [OF evicted(10) selfs]] cards by simp
  have ws: "w \<noteq> crypto_publicKey (core s)" using w(2) by (simp add: evicted(9))
  have gone: "fmlookup (infos r') w = None" "fmlookup (timers r') w = None"
    using router_fix_other(1,2) [OF evicted(10) ws] by (simp_all add: evicted(7,8))
  have maxw: "\<forall>k. k \<noteq> ?self \<and> fmlookup (infos r) k \<noteq> None \<longrightarrow> \<not> publicKey_less w k"
    using w(3) by (auto simp: fmlookup_dom'_iff)
  have win: "fmlookup (infos r) w \<noteq> None"
    using w(1) by (auto simp: fmlookup_dom'_iff)
  show ?thesis
    using keep le w(2) win maxw evicted(4) gone by auto
qed

lemmas handle_defs = router_handleAnnounce_def router_update_def update_accepts_def
  router_resetCache_def time_AfterFunc_def timer_Stop_def timer_Reset_def worst_step_def
  ex_full_def ex_heap_def Let_def

lemmas fix_idle = router_fix_idle self_parent_def ex_env_def

lemma ex_full_run:
  "router_handleAnnounce (ex_env [keyOfByte 1, keyOfByte 5]) 0
     [keyOfByte 1, keyOfByte 9] ex_full (ex_link 4 1 0 0) (ex_ann 5 1 1 0 0) =
   Inr (projr (router_handleAnnounce (ex_env [keyOfByte 1, keyOfByte 5]) 0
     [keyOfByte 1, keyOfByte 9] ex_full (ex_link 4 1 0 0) (ex_ann 5 1 1 0 0)))"
  by (simp add: handle_defs ex_defs fix_idle)

theorem handleAnnounce_capacity_witness:
  "set [keyOfByte 1, keyOfByte 9] = fmdom' (infos ex_full) \<and>
   fmlookup (infos ex_full) (crypto_publicKey (core ex_full)) \<noteq> None \<and>
   routerMaxInfos (core ex_full) \<le> int (card (fmdom' (infos ex_full))) \<and>
   fmlookup (infos ex_full) (ann_key (ex_ann 5 1 1 0 0)) = None \<and>
   fmlookup (infos (projr (router_handleAnnounce (ex_env [keyOfByte 1, keyOfByte 5]) 0
      [keyOfByte 1, keyOfByte 9] ex_full (ex_link 4 1 0 0) (ex_ann 5 1 1 0 0)))) (keyOfByte 5)
     \<noteq> None \<and>
   fmlookup (infos (projr (router_handleAnnounce (ex_env [keyOfByte 1, keyOfByte 5]) 0
      [keyOfByte 1, keyOfByte 9] ex_full (ex_link 4 1 0 0) (ex_ann 5 1 1 0 0)))) (keyOfByte 9)
     = None \<and>
   int (card (fmdom' (infos (projr (router_handleAnnounce (ex_env [keyOfByte 1, keyOfByte 5]) 0
      [keyOfByte 1, keyOfByte 9] ex_full (ex_link 4 1 0 0) (ex_ann 5 1 1 0 0))))))
     \<le> routerMaxInfos (core ex_full)"
proof -
  have h2: "set [keyOfByte 1, keyOfByte 9] = fmdom' (infos ex_full)"
    by (auto simp: ex_full_def ex_defs)
  have h3: "fmlookup (infos ex_full) (crypto_publicKey (core ex_full)) \<noteq> None"
    by (simp add: ex_full_def ex_defs)
  have h4: "routerMaxInfos (core ex_full) \<le> int (card (fmdom' (infos ex_full)))"
    by (simp add: ex_full_def ex_defs)
  have h5: "fmlookup (infos ex_full) (ann_key (ex_ann 5 1 1 0 0)) = None"
    by (simp add: ex_full_def ex_defs)
  have e1: "fmlookup (infos (projr (router_handleAnnounce (ex_env [keyOfByte 1, keyOfByte 5]) 0
      [keyOfByte 1, keyOfByte 9] ex_full (ex_link 4 1 0 0) (ex_ann 5 1 1 0 0)))) (keyOfByte 5)
     \<noteq> None"
    by (simp add: handle_defs ex_defs fix_idle)
  have e2: "fmlookup (infos (projr (router_handleAnnounce (ex_env [keyOfByte 1, keyOfByte 5]) 0
      [keyOfByte 1, keyOfByte 9] ex_full (ex_link 4 1 0 0) (ex_ann 5 1 1 0 0)))) (keyOfByte 9)
     = None"
    by (simp add: handle_defs ex_defs fix_idle)
  note t = handleAnnounce_capacity [OF h2 h3 ex_full_run]
  have e3: "int (card (fmdom' (infos (projr (router_handleAnnounce (ex_env [keyOfByte 1, keyOfByte 5]) 0
      [keyOfByte 1, keyOfByte 9] ex_full (ex_link 4 1 0 0) (ex_ann 5 1 1 0 0))))))
     \<le> routerMaxInfos (core ex_full)"
    using t [THEN conjunct2, THEN conjunct2, THEN conjunct1] h4
    by (simp add: ex_full_def ex_defs)
  show ?thesis
    using h2 h3 h4 h5 e1 e2 e3 by (intro conjI)
qed





subsection \<open>Expiry\<close>

lemma router_update_timer:
  assumes acc: "router_update rnd r ann = (True, r1)" and alloc: "timers_allocated r"
  shows "theap r1 (nextTimer r) =
           Some (if ann_key ann = crypto_publicKey (core r)
                 then \<lparr>deadline = Some (now r + (routerRefresh (core r) + 1000000 * rnd)),
                       func = RefreshFunc (ann_key ann)\<rparr>
                 else \<lparr>deadline = Some (now r + routerTimeout (core r)),
                       func = ExpireFunc (ann_key ann)\<rparr>)"
proof -
  have ne: "fmlookup (timers r) (ann_key ann) \<noteq> Some (nextTimer r)"
    using alloc unfolding timers_allocated_def by fastforce
  show ?thesis
    using acc ne
    by (auto simp: router_update_def router_resetCache_def time_AfterFunc_def timer_Stop_def
          Let_def split: if_splits option.splits)
qed

lemma expire_first:
  assumes tk: "fmlookup (timers r1) k = Some t"
    and ik: "fmlookup (infos r1) k = Some info" and live: "\<not> info_expired info"
    and tm: "theap r1 t = Some \<lparr>deadline = Some d, func = ExpireFunc k\<rparr>"
    and other: "k \<noteq> crypto_publicKey (core r1)"
    and rt: "remote_timer r1 t"
    and fire: "timer_fire e t r1 = Inr r2"
  shows "now r2 = max (now r1) d"
    and "fmlookup (infos r2) k = Some (info\<lparr>info_expired := True\<rparr>)"
    and "fmlookup (timers r2) k = Some t"
    and "theap r2 t =
           Some \<lparr>deadline = Some (max (now r1) d + 2 * routerTimeout (core r1)),
                 func = ExpireFunc k\<rparr>"
    and "core r2 = core r1"
proof -
  define p where "p = timer_Reset t (2 * routerTimeout (core r1))
     (r1\<lparr>now := max (now r1) d,
         theap := (theap r1)(t \<mapsto> \<lparr>deadline = None, func = ExpireFunc k\<rparr>),
         infos := fmupd k (info\<lparr>info_expired := True\<rparr>) (infos r1)\<rparr>)"
  have fp: "router_fix e p = Inr r2"
    using fire tk ik live tm
    by (simp add: timer_fire_def router_expireFunc_def Let_def p_def)
  have p: "now p = max (now r1) d" "core p = core r1"
    "fmlookup (infos p) k = Some (info\<lparr>info_expired := True\<rparr>)"
    "fmlookup (timers p) k = Some t"
    "theap p t = Some \<lparr>deadline = Some (max (now r1) d + 2 * routerTimeout (core r1)),
                       func = ExpireFunc k\<rparr>"
    using tk by (simp_all add: p_def timer_Reset_def)
  have kp: "k \<noteq> crypto_publicKey (core p)" using other p(2) by simp
  have rp: "remote_timer p t"
    using rt by (simp add: remote_timer_def p_def timer_Reset_def)
  show "now r2 = max (now r1) d" "core r2 = core r1"
    using router_fix_core [OF fp] p by simp_all
  show "fmlookup (infos r2) k = Some (info\<lparr>info_expired := True\<rparr>)"
    using router_fix_other(1) [OF fp kp] p by simp
  show "fmlookup (timers r2) k = Some t"
    using router_fix_other(2) [OF fp kp] p by simp
  show "theap r2 t =
           Some \<lparr>deadline = Some (max (now r1) d + 2 * routerTimeout (core r1)),
                 func = ExpireFunc k\<rparr>"
    using router_fix_timer(1) [OF fp rp] p by simp
qed

lemma expire_second:
  assumes tk: "fmlookup (timers r2) k = Some t"
    and ik: "fmlookup (infos r2) k = Some info" and dead: "info_expired info"
    and tm: "theap r2 t = Some \<lparr>deadline = Some d, func = ExpireFunc k\<rparr>"
    and other: "k \<noteq> crypto_publicKey (core r2)"
    and fire: "timer_fire e t r2 = Inr r3"
  shows "now r3 = max (now r2) d"
    and "fmlookup (infos r3) k = None"
    and "fmlookup (timers r3) k = None"
proof -
  define q where "q = r2\<lparr>now := max (now r2) d,
         theap := (theap r2)(t \<mapsto> \<lparr>deadline = None, func = ExpireFunc k\<rparr>)\<rparr>"
  define p where "p = router_resetCache
     ((timer_Stop t q)\<lparr>infos := fmdrop k (infos (timer_Stop t q)),
                       timers := fmdrop k (timers (timer_Stop t q))\<rparr>)"
  have fp: "router_fix e p = Inr r3"
    using fire tk ik dead tm
    by (simp add: timer_fire_def router_expireFunc_def Let_def p_def q_def)
  have p: "now p = max (now r2) d" "core p = core r2"
    "fmlookup (infos p) k = None" "fmlookup (timers p) k = None"
    by (simp_all add: p_def q_def timer_Stop_def router_resetCache_def)
  have kp: "k \<noteq> crypto_publicKey (core p)" using other p(2) by simp
  show "now r3 = max (now r2) d"
    using router_fix_core [OF fp] p by simp
  show "fmlookup (infos r3) k = None"
    using router_fix_other(1) [OF fp kp] p by simp
  show "fmlookup (timers r3) k = None"
    using router_fix_other(2) [OF fp kp] p by simp
qed

lemma refresh_fire:
  assumes tk: "fmlookup (timers r1) k = Some t"
    and tm: "theap r1 t = Some \<lparr>deadline = Some d, func = RefreshFunc k\<rparr>"
  shows "timer_fire e t r1 =
           router_fix e (r1\<lparr>now := max (now r1) d,
                   theap := (theap r1)(t \<mapsto> \<lparr>deadline = None, func = RefreshFunc k\<rparr>),
                   refresh := True\<rparr>)"
  using tk tm by (simp add: timer_fire_def router_refreshFunc_def Let_def)

text \<open>
  C6, as the code has it. Let \<open>_update\<close> accept an announcement at time \<open>now\<close>, with a
  non-negative \<open>routerTimeout\<close>. For a key other than the node's own, the new timer is due
  at \<open>now + routerTimeout\<close>; when it fires, the info is marked expired and otherwise
  unchanged, and the timer is reset to fire \<open>2 * routerTimeout\<close> later, at
  \<open>now + 3 * routerTimeout\<close>; when it fires again, the info and the timer are deleted.
  For the node's own key the timer is due at \<open>now + routerRefresh + rnd\<close> milliseconds,
  and when it fires it sets \<open>refresh\<close> and runs \<open>_fix\<close>, nothing else.
\<close>

theorem expiry_timeline:
  assumes alloc: "timers_allocated r"
    and pos: "0 \<le> routerTimeout (core r)"
    and acc: "router_update rnd r ann = (True, r1)"
  shows "(ann_key ann \<noteq> crypto_publicKey (core r) \<longrightarrow>
            fmlookup (timers r1) (ann_key ann) = Some (nextTimer r) \<and>
            theap r1 (nextTimer r) =
              Some \<lparr>deadline = Some (now r + routerTimeout (core r)),
                    func = ExpireFunc (ann_key ann)\<rparr> \<and>
            (\<forall>r2 r3. timer_fire e1 (nextTimer r) r1 = Inr r2 \<and>
                     timer_fire e2 (nextTimer r) r2 = Inr r3 \<longrightarrow>
               now r2 = now r + routerTimeout (core r) \<and>
               fmlookup (infos r2) (ann_key ann) =
                 Some \<lparr>info_parent = ann_parent ann, info_sigRes = ann_sigRes ann,
                       info_sig = ann_sig ann, info_expired = True\<rparr> \<and>
               fmlookup (timers r2) (ann_key ann) = Some (nextTimer r) \<and>
               theap r2 (nextTimer r) =
                 Some \<lparr>deadline = Some (now r + 3 * routerTimeout (core r)),
                       func = ExpireFunc (ann_key ann)\<rparr> \<and>
               now r3 = now r + 3 * routerTimeout (core r) \<and>
               fmlookup (infos r3) (ann_key ann) = None \<and>
               fmlookup (timers r3) (ann_key ann) = None)) \<and>
         (ann_key ann = crypto_publicKey (core r) \<longrightarrow>
            fmlookup (timers r1) (ann_key ann) = Some (nextTimer r) \<and>
            theap r1 (nextTimer r) =
              Some \<lparr>deadline = Some (now r + (routerRefresh (core r) + 1000000 * rnd)),
                    func = RefreshFunc (ann_key ann)\<rparr> \<and>
            timer_fire e1 (nextTimer r) r1 =
              router_fix e1 (r1\<lparr>now := max (now r) (now r + (routerRefresh (core r) + 1000000 * rnd)),
                      theap := (theap r1)(nextTimer r \<mapsto>
                        \<lparr>deadline = None, func = RefreshFunc (ann_key ann)\<rparr>),
                      refresh := True\<rparr>))"
proof -
  let ?k = "ann_key ann" and ?t = "nextTimer r" and ?T = "routerTimeout (core r)"
  let ?info = "\<lparr>info_parent = ann_parent ann, info_sigRes = ann_sigRes ann,
                info_sig = ann_sig ann, info_expired = False\<rparr>"
  have i1: "fmlookup (infos r1) ?k = Some ?info" and t1: "fmlookup (timers r1) ?k = Some ?t"
    and c1: "core r1 = core r" and n1: "now r1 = now r"
    using router_update_accept [OF acc] by simp_all
  note h1 = router_update_timer [OF acc alloc]
  have remote: "?k \<noteq> crypto_publicKey (core r) \<Longrightarrow>
      timer_fire e1 ?t r1 = Inr r2 \<Longrightarrow>
      timer_fire e2 ?t r2 = Inr r3 \<Longrightarrow>
               now r2 = now r + ?T \<and>
               fmlookup (infos r2) ?k =
                 Some \<lparr>info_parent = ann_parent ann, info_sigRes = ann_sigRes ann,
                       info_sig = ann_sig ann, info_expired = True\<rparr> \<and>
               fmlookup (timers r2) ?k = Some ?t \<and>
               theap r2 ?t = Some \<lparr>deadline = Some (now r + 3 * ?T), func = ExpireFunc ?k\<rparr> \<and>
               now r3 = now r + 3 * ?T \<and>
               fmlookup (infos r3) ?k = None \<and> fmlookup (timers r3) ?k = None" for r2 r3
  proof -
    assume rem: "?k \<noteq> crypto_publicKey (core r)"
      and f1: "timer_fire e1 ?t r1 = Inr r2"
      and f2: "timer_fire e2 ?t r2 = Inr r3"
    have tm1: "theap r1 ?t = Some \<lparr>deadline = Some (now r + ?T), func = ExpireFunc ?k\<rparr>"
      using h1 rem by simp
    have o1: "?k \<noteq> crypto_publicKey (core r1)" using rem c1 by simp
    have l1: "\<not> info_expired ?info" by simp
    have "fmlookup (timers r) (crypto_publicKey (core r)) \<noteq> Some ?t"
      using alloc unfolding timers_allocated_def by fastforce
    then have rt1: "remote_timer r1 ?t"
      using alloc rem c1 router_update_accept(2,6,7) [OF acc]
      by (simp add: remote_timer_def timers_allocated_def)
    note a = expire_first [OF t1 i1 l1 tm1 o1 rt1 f1]
    have m1: "max (now r1) (now r + ?T) = now r + ?T" using pos n1 by simp
    have a1: "now r2 = now r + ?T" using a(1) m1 by simp
    have a2: "fmlookup (infos r2) ?k = Some (?info\<lparr>info_expired := True\<rparr>)" using a(2) by simp
    have a3: "fmlookup (timers r2) ?k = Some ?t" using a(3) by simp
    have a4: "theap r2 ?t = Some \<lparr>deadline = Some (now r + 3 * ?T), func = ExpireFunc ?k\<rparr>"
      using a(4) m1 c1 by simp
    have o2: "?k \<noteq> crypto_publicKey (core r2)" using rem c1 a(5) by simp
    have d2: "info_expired (?info\<lparr>info_expired := True\<rparr>)" by simp
    note b = expire_second [OF a3 a2 d2 a4 o2 f2]
    have m2: "max (now r2) (now r + 3 * ?T) = now r + 3 * ?T" using pos a1 by simp
    have a2': "fmlookup (infos r2) ?k =
                 Some \<lparr>info_parent = ann_parent ann, info_sigRes = ann_sigRes ann,
                       info_sig = ann_sig ann, info_expired = True\<rparr>"
      using a2 by simp
    have b1: "now r3 = now r + 3 * ?T" using b(1) m2 by simp
    show ?thesis using a1 a2' a3 a4 b1 b(2,3) by (intro conjI)
  qed
  have own: "?k = crypto_publicKey (core r) \<Longrightarrow>
            theap r1 ?t = Some \<lparr>deadline = Some (now r + (routerRefresh (core r) + 1000000 * rnd)),
                    func = RefreshFunc ?k\<rparr> \<and>
            timer_fire e1 ?t r1 =
              router_fix e1 (r1\<lparr>now := max (now r) (now r + (routerRefresh (core r) + 1000000 * rnd)),
                      theap := (theap r1)(?t \<mapsto> \<lparr>deadline = None, func = RefreshFunc ?k\<rparr>),
                      refresh := True\<rparr>)"
  proof -
    assume own: "?k = crypto_publicKey (core r)"
    have tm1: "theap r1 ?t = Some \<lparr>deadline = Some (now r + (routerRefresh (core r) + 1000000 * rnd)),
                    func = RefreshFunc ?k\<rparr>"
      using h1 own by simp
    show ?thesis using tm1 refresh_fire [OF t1 tm1, of e1] n1 by simp
  qed
  have tmr: "?k \<noteq> crypto_publicKey (core r) \<Longrightarrow>
      theap r1 ?t = Some \<lparr>deadline = Some (now r + ?T), func = ExpireFunc ?k\<rparr>"
    using h1 by simp
  show ?thesis
    using t1 tmr remote own by blast
qed

lemmas timer_defs = timer_fire_def router_expireFunc_def router_refreshFunc_def
  router_update_def update_accepts_def router_resetCache_def time_AfterFunc_def
  timer_Stop_def timer_Reset_def ex_heap_def Let_def

lemma ex_accepted_eq:
  "ex_accepted =
     ex_live\<lparr>infos := fmupd (keyOfByte 2) (ex_info 1 1 0 1) (infos ex_live),
             timers := fmupd (keyOfByte 2) 10 (timers ex_live),
             theap := (theap ex_live)(10 \<mapsto> \<lparr>deadline = Some 10, func = ExpireFunc (keyOfByte 2)\<rparr>),
             nextTimer := 11\<rparr>"
  by (simp add: ex_accepted_def ex_live_def timer_defs ex_defs)

lemma ex_expired_eq:
  "ex_expired =
     ex_live\<lparr>infos := fmupd (keyOfByte 2) ((ex_info 1 1 0 1)\<lparr>info_expired := True\<rparr>) (infos ex_live),
             timers := fmupd (keyOfByte 2) 10 (timers ex_live),
             theap := (theap ex_live)(10 \<mapsto> \<lparr>deadline = Some 30, func = ExpireFunc (keyOfByte 2)\<rparr>),
             nextTimer := 11, now := 10\<rparr>"
  by (simp add: ex_expired_def ex_accepted_eq ex_live_def timer_defs ex_defs fix_idle)

lemma ex_deleted_eq:
  "ex_deleted =
     ex_live\<lparr>theap := (theap ex_live)(10 \<mapsto> \<lparr>deadline = None, func = ExpireFunc (keyOfByte 2)\<rparr>),
             nextTimer := 11, now := 30\<rparr>"
  by (simp add: ex_deleted_def ex_expired_eq ex_live_def timer_defs ex_defs fix_idle
        fmdrop_fmupd)

theorem expiry_timeline_witness:
  "timers_allocated ex_live \<and> 0 \<le> routerTimeout (core ex_live) \<and>
   router_update 0 ex_live (ex_ann 2 1 1 0 1) = (True, ex_accepted) \<and>
   ann_key (ex_ann 2 1 1 0 1) \<noteq> crypto_publicKey (core ex_live) \<and>
   timer_fire (ex_env [keyOfByte 1, keyOfByte 2]) (nextTimer ex_live) ex_accepted
     = Inr ex_expired \<and>
   timer_fire (ex_env [keyOfByte 1]) (nextTimer ex_live) ex_expired = Inr ex_deleted \<and>
   now ex_expired = now ex_live + routerTimeout (core ex_live) \<and>
   now ex_deleted = now ex_live + 3 * routerTimeout (core ex_live) \<and>
   fmlookup (infos ex_deleted) (ann_key (ex_ann 2 1 1 0 1)) = None \<and>
   router_update 3 ex_live (ex_ann 1 1 2 0 0) =
     (True, snd (router_update 3 ex_live (ex_ann 1 1 2 0 0))) \<and>
   ann_key (ex_ann 1 1 2 0 0) = crypto_publicKey (core ex_live) \<and>
   theap (snd (router_update 3 ex_live (ex_ann 1 1 2 0 0))) (nextTimer ex_live) =
     Some \<lparr>deadline = Some (now ex_live + (routerRefresh (core ex_live) + 1000000 * 3)),
           func = RefreshFunc (ann_key (ex_ann 1 1 2 0 0))\<rparr>"
proof -
  have alloc: "timers_allocated ex_live"
    by (auto simp: timers_allocated_def ex_live_def ex_defs split: if_splits)
  have pos: "0 \<le> routerTimeout (core ex_live)"
    by (simp add: ex_live_def ex_defs)
  have upd: "router_update 0 ex_live (ex_ann 2 1 1 0 1) = (True, ex_accepted)"
    by (simp add: ex_accepted_def) (simp add: ex_live_def timer_defs ex_defs)
  have remote: "ann_key (ex_ann 2 1 1 0 1) \<noteq> crypto_publicKey (core ex_live)"
    by (simp add: ex_live_def ex_defs)
  have f1: "timer_fire (ex_env [keyOfByte 1, keyOfByte 2]) (nextTimer ex_live) ex_accepted
      = Inr ex_expired"
    by (simp add: ex_expired_def)
       (simp add: ex_accepted_eq ex_live_def timer_defs ex_defs fix_idle)
  have f2: "timer_fire (ex_env [keyOfByte 1]) (nextTimer ex_live) ex_expired = Inr ex_deleted"
    by (simp add: ex_deleted_def)
       (simp add: ex_expired_eq ex_live_def timer_defs ex_defs fix_idle)
  note t = expiry_timeline [OF alloc pos upd]
  note tr = t [THEN conjunct1, rule_format, OF remote, THEN conjunct2, THEN conjunct2,
      rule_format, OF conjI [OF f1 f2]]
  have c1: "now ex_expired = now ex_live + routerTimeout (core ex_live)"
    using tr by (intro conjunct1 [OF tr])
  have c2: "now ex_deleted = now ex_live + 3 * routerTimeout (core ex_live)"
    using tr by blast
  have c3: "fmlookup (infos ex_deleted) (ann_key (ex_ann 2 1 1 0 1)) = None"
    using tr by blast
  have upd2: "router_update 3 ex_live (ex_ann 1 1 2 0 0) =
     (True, snd (router_update 3 ex_live (ex_ann 1 1 2 0 0)))"
    by (simp add: ex_live_def timer_defs ex_defs)
  have own: "ann_key (ex_ann 1 1 2 0 0) = crypto_publicKey (core ex_live)"
    by (simp add: ex_live_def ex_defs)
  note t2 = expiry_timeline [OF alloc pos upd2, THEN conjunct2, rule_format, OF own]
  have c4: "theap (snd (router_update 3 ex_live (ex_ann 1 1 2 0 0))) (nextTimer ex_live) =
     Some \<lparr>deadline = Some (now ex_live + (routerRefresh (core ex_live) + 1000000 * 3)),
           func = RefreshFunc (ann_key (ex_ann 1 1 2 0 0))\<rparr>"
    using t2 by blast
  show ?thesis
    using alloc pos upd remote f1 f2 c1 c2 c3 upd2 own c4 by (intro conjI)
qed

text \<open>
  C6 as stated fails: with \<open>routerTimeout\<close> 10 and the announcement accepted at time 0,
  the info is marked expired at time 10, is still stored after that with its timer due at
  30, and is deleted at time 30, not at 20.
\<close>

theorem expiry_not_after_two_timeouts:
  "now ex_live = 0 \<and> routerTimeout (core ex_live) = 10 \<and>
   fmlookup (infos ex_accepted) (keyOfByte 2) = Some (ex_info 1 1 0 1) \<and>
   now ex_expired = 10 \<and>
   fmlookup (infos ex_expired) (keyOfByte 2) = Some ((ex_info 1 1 0 1)\<lparr>info_expired := True\<rparr>) \<and>
   theap ex_expired 10 = Some \<lparr>deadline = Some 30, func = ExpireFunc (keyOfByte 2)\<rparr> \<and>
   fmlookup (infos ex_deleted) (keyOfByte 2) = None \<and>
   now ex_deleted = 30 \<and>
   now ex_deleted \<noteq> now ex_live + 2 * routerTimeout (core ex_live)"
  by (simp add: ex_accepted_eq ex_expired_eq ex_deleted_eq) (simp add: ex_live_def ex_defs)

subsection \<open>The peer syncer\<close>

lemma Key_GetBit_kbit: "i < KeyBits \<Longrightarrow> Key_GetBit k i = Some (kbit k i)"
  by (simp add: Key_GetBit_def kbit_def)

lemma Key_SetBit_Some: "i < KeyBits \<Longrightarrow> Key_SetBit k v i = Some (setBit k v i)"
  by (simp add: setBit_def Key_SetBit_def Let_def)

lemma Rep_setBit:
  assumes "i < KeyBits"
  shows "Rep_publicKey (setBit k v i) =
     (Rep_publicKey k)[i div 8 :=
        (if v then set_bit (7 - i mod 8) (Rep_publicKey k ! (i div 8))
         else unset_bit (7 - i mod 8) (Rep_publicKey k ! (i div 8)))]"
  using assms
  by (simp add: setBit_def Key_SetBit_def Let_def Abs_publicKey_inverse)

lemma kbit_setBit:
  assumes i: "i < KeyBits" and j: "j < KeyBits"
  shows "kbit (setBit k v i) j = (if j = i then v else kbit k j)"
proof (cases "j div 8 = i div 8")
  case False
  then have "j \<noteq> i" by auto
  with False show ?thesis
    by (simp add: kbit_def Rep_setBit [OF i])
next
  case True
  have len: "i div 8 < length (Rep_publicKey k)"
    using i by (simp add: KeyBits_def)
  have m: "j mod 8 = i mod 8 \<longleftrightarrow> j = i"
    using True by (metis div_mult_mod_eq)
  have m7: "7 - j mod 8 = 7 - i mod 8 \<longleftrightarrow> j = i"
  proof -
    have "j mod 8 < 8" "i mod 8 < 8" by simp_all
    then have "7 - j mod 8 = 7 - i mod 8 \<longleftrightarrow> j mod 8 = i mod 8" by linarith
    with m show ?thesis by simp
  qed
  have p: "7 - j mod 8 < LENGTH(8)" by simp
  show ?thesis
    using True len m7
    by (auto simp: kbit_def Rep_setBit [OF i] bit_set_bit_iff bit_unset_bit_iff
          possible_bit_word)
qed

lemma key_eqI:
  assumes "\<And>i. i < KeyBits \<Longrightarrow> kbit a i = kbit b i"
  shows "a = b"
proof -
  have "Rep_publicKey a = Rep_publicKey b"
  proof (rule nth_equalityI)
    show "length (Rep_publicKey a) = length (Rep_publicKey b)" by simp
  next
    fix j assume "j < length (Rep_publicKey a)"
    then have j: "j < publicKeySize" by simp
    show "Rep_publicKey a ! j = Rep_publicKey b ! j"
    proof (rule bit_word_eqI)
      fix n assume "n < LENGTH(8)"
      then have n: "n < 8" by simp
      define m where "m = 7 - n"
      have m: "m < 8" "7 - m = n" using n by (simp_all add: m_def)
      define i where "i = 8 * j + m"
      have i: "i < KeyBits" using j m(1) by (simp add: i_def KeyBits_def)
      have d: "i div 8 = j" using m(1) by (simp add: i_def)
      have "i mod 8 = m" using m(1) by (simp add: i_def)
      then have md: "7 - i mod 8 = n" using m(2) by simp
      from assms [OF i] show "bit (Rep_publicKey a ! j) n = bit (Rep_publicKey b ! j) n"
        by (simp add: kbit_def d md)
    qed
  qed
  then show ?thesis by (simp add: Rep_publicKey_inject)
qed

lemma kbit_extend_prefix:
  "off + length bs \<le> KeyBits \<Longrightarrow> i < KeyBits \<Longrightarrow>
   kbit (extend_prefix k off bs) i =
     (if off \<le> i \<and> i < off + length bs then bs ! (i - off) else kbit k i)"
proof (induction bs arbitrary: k off)
  case Nil
  then show ?case by auto
next
  case (Cons b bs)
  have off: "off < KeyBits" using Cons.prems(1) by simp
  have ih: "kbit (extend_prefix (setBit k b off) (Suc off) bs) i =
     (if Suc off \<le> i \<and> i < Suc off + length bs then bs ! (i - Suc off)
      else kbit (setBit k b off) i)"
    using Cons.IH [of "Suc off" "setBit k b off"] Cons.prems by simp
  show ?case
  proof (cases "i = off")
    case True
    then show ?thesis using ih off by (simp add: kbit_setBit)
  next
    case False
    have sub: "i - off - 1 = i - Suc off" by simp
    show ?thesis
      using False ih off Cons.prems(2)
      by (auto simp: kbit_setBit nth_Cons' sub)
  qed
qed

lemma NodeFor_loop_spec:
  "n \<le> KeyBits \<Longrightarrow> idx \<le> n \<Longrightarrow>
   \<exists>node m. NodeFor_loop here k idx n = Inr (node, m) \<and> idx \<le> m \<and> m \<le> n \<and>
     descend here (map (kbit k) [idx..<m]) = Some node \<and>
     (m < n \<longrightarrow> descend node [kbit k m] = None)"
proof (induction here k idx n rule: NodeFor_loop.induct)
  case (1 here k idx n)
  show ?case
  proof (cases "idx < n")
    case False
    then show ?thesis using "1.prems" by (subst NodeFor_loop.simps) simp
  next
    case True
    then have g: "Key_GetBit k idx = Some (kbit k idx)"
      using "1.prems"(1) by (simp add: Key_GetBit_kbit)
    show ?thesis
    proof (cases "if kbit k idx then Right here else Left here")
      case None
      then have "NodeFor_loop here k idx n = Inr (here, idx)"
        using True g by (subst NodeFor_loop.simps) simp
      moreover have "descend here [kbit k idx] = None" using None by simp
      ultimately show ?thesis using True by auto
    next
      case (Some nxt)
      have run: "NodeFor_loop here k idx n = NodeFor_loop nxt k (Suc idx) n"
        using True g Some by (subst NodeFor_loop.simps) simp
      from "1.IH" [OF True g Some "1.prems"(1)] True
      obtain node m where ih: "NodeFor_loop nxt k (Suc idx) n = Inr (node, m)" "Suc idx \<le> m" "m \<le> n"
        "descend nxt (map (kbit k) [Suc idx..<m]) = Some node"
        "m < n \<longrightarrow> descend node [kbit k m] = None"
        by auto
      have "[idx..<m] = idx # [Suc idx..<m]"
        using ih(2) by (simp add: upt_conv_Cons)
      then have "descend here (map (kbit k) [idx..<m]) = Some node"
        using ih(4) Some by simp
      then show ?thesis using run ih by auto
    qed
  qed
qed

lemma leafPaths_nonempty: "leafPaths n \<noteq> []"
  by (induction n) (auto split: option.splits)

lemma leafPaths_child:
  assumes "(if b then Right n else Left n) = Some c" and "q \<in> set (leafPaths c)"
  shows "b # q \<in> set (leafPaths n)"
  using assms by (cases n) (auto split: option.splits if_splits)

lemma descend_leafPaths:
  "descend n p = Some c \<Longrightarrow> q \<in> set (leafPaths c) \<Longrightarrow> p @ q \<in> set (leafPaths n)"
proof (induction p arbitrary: n)
  case Nil
  then show ?case by simp
next
  case (Cons b p)
  from Cons.prems(1) obtain c' where c': "(if b then Right n else Left n) = Some c'"
    and d: "descend c' p = Some c"
    by (auto split: option.splits)
  have "p @ q \<in> set (leafPaths c')" by (rule Cons.IH [OF d Cons.prems(2)])
  then show ?case using leafPaths_child [OF c'] by simp
qed

lemma unat_plen_Suc:
  fixes plen :: uint64
  assumes "unat plen < KeyBits"
  shows "unat (plen + 1) = Suc (unat plen)"
proof -
  have "unat plen + 1 < 2 ^ 64"
    using assms by (simp add: KeyBits_def publicKeySize_def)
  then show ?thesis
    by (simp add: unat_add_lem [THEN iffD1])
qed

lemma merkleReq_loop_spec:
  "unat plen = D \<Longrightarrow>
   \<forall>q \<in> set (leafPaths node). D + length q = KeyBits \<and>
      fmlookup (infos r) (extend_prefix pfx D q) \<noteq> None \<Longrightarrow>
   \<exists>bs n'. single_chain node bs \<and> descend node bs = Some n' \<and>
     (Left n' \<noteq> None \<and> Right n' \<noteq> None \<and>
        merkleReq_loop r p node plen pfx =
          Inr (peer_send p (MsgMerkleRes
            \<lparr>merkleReq = \<lparr>prefixLen = plen + of_nat (length bs),
                           prefix = extend_prefix pfx D bs\<rparr>,
             digest = Digest n'\<rparr>) r)
      \<or>
      Left n' = None \<and> Right n' = None \<and> D + length bs = KeyBits \<and>
        (\<exists>info. fmlookup (infos r) (extend_prefix pfx D bs) = Some info \<and>
           merkleReq_loop r p node plen pfx =
             Inr (peer_send p (MsgAnnounce
               (routerInfo_getAnnounce info (extend_prefix pfx D bs))) r)))"
proof (induction r p node plen pfx arbitrary: D rule: merkleReq_loop.induct)
  case (1 r p d l rt plen pfx)
  have "single_chain (Node d (Some l) (Some rt)) [] \<and>
        descend (Node d (Some l) (Some rt)) [] = Some (Node d (Some l) (Some rt))"
    by simp
  then show ?case
    by (intro exI [of _ "[]"] exI [of _ "Node d (Some l) (Some rt)"]) simp
next
  case (2 r p d l plen pfx)
  obtain q0 where q0: "q0 \<in> set (leafPaths l)"
    using leafPaths_nonempty [of l] by (cases "leafPaths l") auto
  have inv: "\<And>q. q \<in> set (leafPaths l) \<Longrightarrow>
      D + Suc (length q) = KeyBits \<and>
      fmlookup (infos r) (extend_prefix (setBit pfx False D) (Suc D) q) \<noteq> None"
    using "2.prems"(2) by auto
  have lt: "D < KeyBits" using inv [OF q0] by simp
  have sb: "Key_SetBit pfx False (unat plen) = Some (setBit pfx False D)"
    using lt "2.prems"(1) by (simp add: Key_SetBit_Some)
  have up: "unat (plen + 1) = Suc D"
    using lt "2.prems"(1) unat_plen_Suc [of plen] by simp
  have hyp: "\<forall>q \<in> set (leafPaths l). Suc D + length q = KeyBits \<and>
      fmlookup (infos r) (extend_prefix (setBit pfx False D) (Suc D) q) \<noteq> None"
    using inv by simp
  from "2.IH" [OF sb up hyp]
  obtain bs n' where ih: "single_chain l bs" "descend l bs = Some n'"
    "Left n' \<noteq> None \<and> Right n' \<noteq> None \<and>
        merkleReq_loop r p l (plen + 1) (setBit pfx False D) =
          Inr (peer_send p (MsgMerkleRes
            \<lparr>merkleReq = \<lparr>prefixLen = plen + 1 + of_nat (length bs),
                           prefix = extend_prefix (setBit pfx False D) (Suc D) bs\<rparr>,
             digest = Digest n'\<rparr>) r)
      \<or>
      Left n' = None \<and> Right n' = None \<and> Suc D + length bs = KeyBits \<and>
        (\<exists>info. fmlookup (infos r) (extend_prefix (setBit pfx False D) (Suc D) bs) = Some info \<and>
           merkleReq_loop r p l (plen + 1) (setBit pfx False D) =
             Inr (peer_send p (MsgAnnounce
               (routerInfo_getAnnounce info (extend_prefix (setBit pfx False D) (Suc D) bs))) r))"
    by blast
  have run: "merkleReq_loop r p (Node d (Some l) None) plen pfx =
             merkleReq_loop r p l (plen + 1) (setBit pfx False D)"
    using sb by simp
  have ch: "single_chain (Node d (Some l) None) (False # bs) \<and>
            descend (Node d (Some l) None) (False # bs) = Some n'"
    using ih(1,2) by simp
  have len: "plen + of_nat (length (False # bs)) = plen + 1 + of_nat (length bs)"
    by simp
  have ext: "extend_prefix pfx D (False # bs) = extend_prefix (setBit pfx False D) (Suc D) bs"
    by simp
  have dl: "D + length (False # bs) = Suc D + length bs" by simp
  show ?case
    apply (rule exI [of _ "False # bs"])
    apply (rule exI [of _ n'])
    apply (simp only: run len ext dl)
    using ch ih(3) apply blast
    done
next
  case (3 r p d rt plen pfx)
  obtain q0 where q0: "q0 \<in> set (leafPaths rt)"
    using leafPaths_nonempty [of rt] by (cases "leafPaths rt") auto
  have inv: "\<And>q. q \<in> set (leafPaths rt) \<Longrightarrow>
      D + Suc (length q) = KeyBits \<and>
      fmlookup (infos r) (extend_prefix (setBit pfx True D) (Suc D) q) \<noteq> None"
    using "3.prems"(2) by auto
  have lt: "D < KeyBits" using inv [OF q0] by simp
  have sb: "Key_SetBit pfx True (unat plen) = Some (setBit pfx True D)"
    using lt "3.prems"(1) by (simp add: Key_SetBit_Some)
  have up: "unat (plen + 1) = Suc D"
    using lt "3.prems"(1) unat_plen_Suc [of plen] by simp
  have hyp: "\<forall>q \<in> set (leafPaths rt). Suc D + length q = KeyBits \<and>
      fmlookup (infos r) (extend_prefix (setBit pfx True D) (Suc D) q) \<noteq> None"
    using inv by simp
  from "3.IH" [OF sb up hyp]
  obtain bs n' where ih: "single_chain rt bs" "descend rt bs = Some n'"
    "Left n' \<noteq> None \<and> Right n' \<noteq> None \<and>
        merkleReq_loop r p rt (plen + 1) (setBit pfx True D) =
          Inr (peer_send p (MsgMerkleRes
            \<lparr>merkleReq = \<lparr>prefixLen = plen + 1 + of_nat (length bs),
                           prefix = extend_prefix (setBit pfx True D) (Suc D) bs\<rparr>,
             digest = Digest n'\<rparr>) r)
      \<or>
      Left n' = None \<and> Right n' = None \<and> Suc D + length bs = KeyBits \<and>
        (\<exists>info. fmlookup (infos r) (extend_prefix (setBit pfx True D) (Suc D) bs) = Some info \<and>
           merkleReq_loop r p rt (plen + 1) (setBit pfx True D) =
             Inr (peer_send p (MsgAnnounce
               (routerInfo_getAnnounce info (extend_prefix (setBit pfx True D) (Suc D) bs))) r))"
    by blast
  have run: "merkleReq_loop r p (Node d None (Some rt)) plen pfx =
             merkleReq_loop r p rt (plen + 1) (setBit pfx True D)"
    using sb by simp
  have ch: "single_chain (Node d None (Some rt)) (True # bs) \<and>
            descend (Node d None (Some rt)) (True # bs) = Some n'"
    using ih(1,2) by simp
  have len: "plen + of_nat (length (True # bs)) = plen + 1 + of_nat (length bs)"
    by simp
  have ext: "extend_prefix pfx D (True # bs) = extend_prefix (setBit pfx True D) (Suc D) bs"
    by simp
  have dl: "D + length (True # bs) = Suc D + length bs" by simp
  show ?case
    apply (rule exI [of _ "True # bs"])
    apply (rule exI [of _ n'])
    apply (simp only: run len ext dl)
    using ch ih(3) apply blast
    done
next
  case (4 r p d plen pfx)
  have DK: "D = KeyBits" and look: "fmlookup (infos r) pfx \<noteq> None"
    using "4.prems"(2) by simp_all
  have "plen = of_nat (unat plen)" by simp
  then have pl: "plen = of_nat KeyBits" using "4.prems"(1) DK by simp
  from look obtain info where info: "fmlookup (infos r) pfx = Some info" by auto
  show ?case
    apply (rule exI [of _ "[]"])
    apply (rule exI [of _ "Node d None None"])
    using pl info DK apply simp
    done
qed

lemma keyOfBits_path:
  assumes len: "m + length q = KeyBits"
  shows "keyOfBits (map (kbit k) [0..<m] @ q) = extend_prefix k m q"
proof (rule key_eqI)
  fix i assume i: "i < KeyBits"
  have l: "0 + length (map (kbit k) [0..<m] @ q) \<le> KeyBits" using len by simp
  have "kbit (keyOfBits (map (kbit k) [0..<m] @ q)) i = (map (kbit k) [0..<m] @ q) ! i"
    unfolding keyOfBits_def using kbit_extend_prefix [OF l i, of zeroKey] i len by simp
  also have "\<dots> = (if i < m then kbit k i else q ! (i - m))"
    by (simp add: nth_append)
  also have "\<dots> = kbit (extend_prefix k m q) i"
    using kbit_extend_prefix [of m q i k] len i by auto
  finally show "kbit (keyOfBits (map (kbit k) [0..<m] @ q)) i = kbit (extend_prefix k m q) i" .
qed

lemma check_unat: "routerMerkleReq_check req \<Longrightarrow> unat (prefixLen req) \<le> KeyBits"
  by (simp add: routerMerkleReq_check_def word_le_nat_alt unat_of_nat KeyBits_def
        publicKeySize_def)

text \<open>
  C5. Let the request pass \<open>check\<close>, and let the peer's tree have every leaf at depth
  \<open>K\<close> with its key in \<open>infos\<close>. \<open>NodeFor\<close> returns the deepest node on the path of the
  prefix and the number \<open>m\<close> of bits matched. If \<open>m\<close> is less than the requested length,
  nothing is sent. Otherwise the handler follows a chain of single children from that
  node along some bits \<open>bs\<close>, and at its end either the node has two children and exactly
  one \<open>MerkleRes\<close> is sent, with the prefix extended by \<open>bs\<close>, the length increased by the
  length of \<open>bs\<close> and that node's digest; or the node is a leaf, the extended length is
  \<open>K\<close>, and the \<open>Announce\<close> of the info stored under the extended prefix is sent.
\<close>

theorem handleMerkleReq_reply:
  assumes check: "routerMerkleReq_check req"
    and merk: "fmlookup (merks r) (peer_key p) = Some t"
    and wf: "merkle_wf (infos r) t"
  shows "\<exists>node m.
     Tree_NodeFor t (prefix req) (unat (prefixLen req)) = Inr (node, m) \<and>
     m \<le> unat (prefixLen req) \<and>
     descend (Root t) (map (kbit (prefix req)) [0..<m]) = Some node \<and>
     (m < unat (prefixLen req) \<longrightarrow>
        descend node [kbit (prefix req) m] = None \<and> router_handleMerkleReq r p req = Inr r) \<and>
     (m = unat (prefixLen req) \<longrightarrow>
        (\<exists>bs n'. single_chain node bs \<and> descend node bs = Some n' \<and>
           (Left n' \<noteq> None \<and> Right n' \<noteq> None \<and>
              router_handleMerkleReq r p req =
                Inr (peer_send p (MsgMerkleRes
                  \<lparr>merkleReq = \<lparr>prefixLen = prefixLen req + of_nat (length bs),
                                 prefix = extend_prefix (prefix req) m bs\<rparr>,
                   digest = Digest n'\<rparr>) r)
            \<or>
            Left n' = None \<and> Right n' = None \<and> m + length bs = KeyBits \<and>
              (\<exists>info. fmlookup (infos r) (extend_prefix (prefix req) m bs) = Some info \<and>
                 router_handleMerkleReq r p req =
                   Inr (peer_send p (MsgAnnounce
                     (routerInfo_getAnnounce info (extend_prefix (prefix req) m bs))) r)))))"
proof -
  let ?n = "unat (prefixLen req)" and ?k = "prefix req"
  have n: "?n \<le> KeyBits" by (rule check_unat [OF check])
  from NodeFor_loop_spec [OF n, of 0 "Root t" ?k]
  obtain node m where nf: "NodeFor_loop (Root t) ?k 0 ?n = Inr (node, m)" "m \<le> ?n"
    "descend (Root t) (map (kbit ?k) [0..<m]) = Some node"
    "m < ?n \<longrightarrow> descend node [kbit ?k m] = None"
    by auto
  have tf: "Tree_NodeFor t ?k ?n = Inr (node, m)"
    using nf(1) by (simp add: Tree_NodeFor_def)
  have short: "m < ?n \<Longrightarrow> router_handleMerkleReq r p req = Inr r"
  proof -
    assume lt: "m < ?n"
    have "unat (of_nat m :: uint64) = m"
      using lt unsigned_less [of "prefixLen req", where 'a = nat]
      by (simp add: unat_of_nat)
    then have "(of_nat m :: uint64) \<noteq> prefixLen req" using lt by auto
    then show ?thesis
      using tf merk by (simp add: router_handleMerkleReq_def)
  qed
  have full: "m = ?n \<Longrightarrow>
        (\<exists>bs n'. single_chain node bs \<and> descend node bs = Some n' \<and>
           (Left n' \<noteq> None \<and> Right n' \<noteq> None \<and>
              router_handleMerkleReq r p req =
                Inr (peer_send p (MsgMerkleRes
                  \<lparr>merkleReq = \<lparr>prefixLen = prefixLen req + of_nat (length bs),
                                 prefix = extend_prefix ?k m bs\<rparr>,
                   digest = Digest n'\<rparr>) r)
            \<or>
            Left n' = None \<and> Right n' = None \<and> m + length bs = KeyBits \<and>
              (\<exists>info. fmlookup (infos r) (extend_prefix ?k m bs) = Some info \<and>
                 router_handleMerkleReq r p req =
                   Inr (peer_send p (MsgAnnounce
                     (routerInfo_getAnnounce info (extend_prefix ?k m bs))) r))))"
  proof -
    assume eq: "m = ?n"
    have run: "router_handleMerkleReq r p req = merkleReq_loop r p node (prefixLen req) ?k"
      using tf merk eq by (simp add: router_handleMerkleReq_def)
    have hyp: "\<forall>q \<in> set (leafPaths node). m + length q = KeyBits \<and>
        fmlookup (infos r) (extend_prefix ?k m q) \<noteq> None"
    proof
      fix q assume q: "q \<in> set (leafPaths node)"
      have mem: "map (kbit ?k) [0..<m] @ q \<in> set (leafPaths (Root t))"
        by (rule descend_leafPaths [OF nf(3) q])
      then have l: "length (map (kbit ?k) [0..<m] @ q) = KeyBits"
        and f: "fmlookup (infos r) (keyOfBits (map (kbit ?k) [0..<m] @ q)) \<noteq> None"
        using wf unfolding merkle_wf_def by blast+
      have len: "m + length q = KeyBits" using l by simp
      show "m + length q = KeyBits \<and> fmlookup (infos r) (extend_prefix ?k m q) \<noteq> None"
        using len f keyOfBits_path [OF len, of ?k] by simp
    qed
    show ?thesis
      unfolding run
      by (rule merkleReq_loop_spec [OF eq [symmetric] hyp])
  qed
  show ?thesis
    using tf nf(2,3,4) short full by blast
qed

lemma leafPaths_chainTree: "leafPaths (chainTree bs) = [bs]"
  by (induction bs) auto

lemma kbit_zeroKey: "i < KeyBits \<Longrightarrow> \<not> kbit zeroKey i"
  by (simp add: kbit_def Rep_zeroKey KeyBits_def)

lemma setBit_zeroKey_False: "i < KeyBits \<Longrightarrow> setBit zeroKey False i = zeroKey"
  by (rule key_eqI) (simp add: kbit_setBit kbit_zeroKey)

lemma merkleReq_loop_chain:
  "unat plen + length bs = KeyBits \<Longrightarrow>
   fmlookup (infos r) (extend_prefix pfx (unat plen) bs) = Some info \<Longrightarrow>
   merkleReq_loop r p (chainTree bs) plen pfx =
     Inr (peer_send p (MsgAnnounce
       (routerInfo_getAnnounce info (extend_prefix pfx (unat plen) bs))) r)"
proof (induction bs arbitrary: plen pfx)
  case Nil
  have "unat plen = KeyBits" using Nil.prems(1) by simp
  then have "of_nat (unat plen) = (of_nat KeyBits :: uint64)" by (simp only:)
  then have "plen = of_nat KeyBits" by simp
  then show ?case using Nil.prems(2) by simp
next
  case (Cons b bs)
  have lt: "unat plen < KeyBits" using Cons.prems(1) by simp
  have up: "unat (plen + 1) = Suc (unat plen)" by (rule unat_plen_Suc [OF lt])
  have ih: "merkleReq_loop r p (chainTree bs) (plen + 1) (setBit pfx b (unat plen)) =
     Inr (peer_send p (MsgAnnounce
       (routerInfo_getAnnounce info (extend_prefix pfx (unat plen) (b # bs)))) r)"
    using Cons.IH [of "plen + 1" "setBit pfx b (unat plen)"] Cons.prems up by simp
  show ?case
    using ih by (cases b) (simp_all add: Key_SetBit_Some [OF lt])
qed

lemma ex_merk_wf: "merkle_wf (infos ex_syncer) ex_merk"
  by (simp add: merkle_wf_def ex_merk_def ex_syncer_def ex_router_def leafPaths_chainTree
        KeyBits_def publicKeySize_def)

lemma ex_syncer_merk: "fmlookup (merks ex_syncer) (peer_key (ex_link 2 1 0 0)) = Some ex_merk"
  by (simp add: ex_syncer_def ex_link_def)

lemma ex_check: "n \<le> 256 \<Longrightarrow> routerMerkleReq_check \<lparr>prefixLen = n, prefix = k\<rparr>"
  by (simp add: routerMerkleReq_check_def KeyBits_def publicKeySize_def)

theorem handleMerkleReq_reply_witness:
  "routerMerkleReq_check \<lparr>prefixLen = 0, prefix = zeroKey\<rparr> \<and>
   routerMerkleReq_check \<lparr>prefixLen = 1, prefix = zeroKey\<rparr> \<and>
   routerMerkleReq_check \<lparr>prefixLen = 2, prefix = setBit zeroKey True 1\<rparr> \<and>
   fmlookup (merks ex_syncer) (peer_key (ex_link 2 1 0 0)) = Some ex_merk \<and>
   merkle_wf (infos ex_syncer) ex_merk \<and>
   router_handleMerkleReq ex_syncer (ex_link 2 1 0 0) \<lparr>prefixLen = 0, prefix = zeroKey\<rparr> =
     Inr (peer_send (ex_link 2 1 0 0)
       (MsgMerkleRes \<lparr>merkleReq = \<lparr>prefixLen = 0, prefix = zeroKey\<rparr>, digest = zeroDigest\<rparr>)
       ex_syncer) \<and>
   router_handleMerkleReq ex_syncer (ex_link 2 1 0 0) \<lparr>prefixLen = 1, prefix = zeroKey\<rparr> =
     Inr (peer_send (ex_link 2 1 0 0)
       (MsgAnnounce (routerInfo_getAnnounce (ex_info 1 1 0 0)
          (keyOfBits (False # False # replicate 254 False))))
       ex_syncer) \<and>
   router_handleMerkleReq ex_syncer (ex_link 2 1 0 0)
     \<lparr>prefixLen = 2, prefix = setBit zeroKey True 1\<rparr> = Inr ex_syncer"
proof -
  let ?p = "ex_link 2 1 0 0"
  have c0: "routerMerkleReq_check \<lparr>prefixLen = 0, prefix = zeroKey\<rparr>"
    and c1: "routerMerkleReq_check \<lparr>prefixLen = 1, prefix = zeroKey\<rparr>"
    and c2: "routerMerkleReq_check \<lparr>prefixLen = 2, prefix = setBit zeroKey True 1\<rparr>"
    by (simp_all add: ex_check)
  note t0 = handleMerkleReq_reply [OF c0 ex_syncer_merk ex_merk_wf]
  note t1 = handleMerkleReq_reply [OF c1 ex_syncer_merk ex_merk_wf]
  note t2 = handleMerkleReq_reply [OF c2 ex_syncer_merk ex_merk_wf]
  have k0: "Key_GetBit zeroKey 0 = Some False"
    by (simp add: Key_GetBit_kbit kbit_zeroKey KeyBits_def publicKeySize_def)
  have k20: "Key_GetBit (setBit zeroKey True (Suc 0)) 0 = Some False"
    and k21: "Key_GetBit (setBit zeroKey True (Suc 0)) (Suc 0) = Some True"
    by (simp_all add: Key_GetBit_kbit kbit_setBit kbit_zeroKey KeyBits_def publicKeySize_def)
  have r0: "router_handleMerkleReq ex_syncer ?p \<lparr>prefixLen = 0, prefix = zeroKey\<rparr> =
     Inr (peer_send ?p
       (MsgMerkleRes \<lparr>merkleReq = \<lparr>prefixLen = 0, prefix = zeroKey\<rparr>, digest = zeroDigest\<rparr>)
       ex_syncer)"
    by (simp add: router_handleMerkleReq_def ex_syncer_merk Tree_NodeFor_def NodeFor_loop.simps
          ex_merk_def)
  have z: "setBit zeroKey False 0 = zeroKey"
    by (rule setBit_zeroKey_False) (simp add: KeyBits_def publicKeySize_def)
  have key: "extend_prefix zeroKey (unat (1 :: uint64)) (False # replicate 254 False) =
             keyOfBits (False # False # replicate 254 False)"
    by (simp add: keyOfBits_def z)
  have look: "fmlookup (infos ex_syncer)
      (extend_prefix zeroKey (unat (1 :: uint64)) (False # replicate 254 False)) =
      Some (ex_info 1 1 0 0)"
    unfolding key by (simp add: ex_syncer_def ex_router_def)
  have len: "unat (1 :: uint64) + length (False # replicate 254 False) = KeyBits"
    by (simp add: KeyBits_def publicKeySize_def)
  have nf1: "Tree_NodeFor ex_merk zeroKey (Suc 0) =
     Inr (chainTree (False # replicate 254 False), Suc 0)"
    by (simp add: Tree_NodeFor_def NodeFor_loop.simps ex_merk_def k0 del: chainTree.simps)
  have run1: "router_handleMerkleReq ex_syncer ?p \<lparr>prefixLen = 1, prefix = zeroKey\<rparr> =
     merkleReq_loop ex_syncer ?p (chainTree (False # replicate 254 False)) 1 zeroKey"
    by (simp add: router_handleMerkleReq_def ex_syncer_merk nf1
          del: chainTree.simps merkleReq_loop.simps)
  have r1: "router_handleMerkleReq ex_syncer ?p \<lparr>prefixLen = 1, prefix = zeroKey\<rparr> =
     Inr (peer_send ?p
       (MsgAnnounce (routerInfo_getAnnounce (ex_info 1 1 0 0)
          (keyOfBits (False # False # replicate 254 False))))
       ex_syncer)"
    unfolding run1 using merkleReq_loop_chain [OF len look, of ?p]
    by (simp only: key)
  have nf2: "Tree_NodeFor ex_merk (setBit zeroKey True (Suc 0)) 2 =
     Inr (chainTree (False # replicate 254 False), Suc 0)"
    by (simp add: Tree_NodeFor_def NodeFor_loop.simps ex_merk_def k20 k21)
  have u2: "unat (2 :: uint64) = 2" by simp
  have r2: "router_handleMerkleReq ex_syncer ?p
     \<lparr>prefixLen = 2, prefix = setBit zeroKey True 1\<rparr> = Inr ex_syncer"
    by (simp add: router_handleMerkleReq_def ex_syncer_merk nf2 u2
          del: chainTree.simps merkleReq_loop.simps)
  show ?thesis
    using t0 t1 t2 c0 c1 c2 ex_syncer_merk ex_merk_wf r0 r1 r2 by (intro conjI)
qed

end
